theory Spec2Isabelle
  imports Main "HOL-Library.FSet" "HOL-Library.List_Lexorder" "HOL-Library.Char_ord"
begin

section \<open>Token model (lex.py)\<close>

text \<open>
  \<^verbatim>\<open>class TokenType(enum.Enum)\<close>: one constructor per member, in the order of the class
  body. \<open>name\<close> and \<open>value\<close> are the attributes of the same names of a Python enum member.
\<close>

datatype TokenType =
    EOF | NEWLINE | NUMBER | IDENT | STRING
  | LABEL | GOTO | PRINT | INPUT | LET | IF | THEN | ENDIF | WHILE | REPEAT | ENDWHILE
  | EQ | PLUS | MINUS | ASTERISK | SLASH | EQEQ | NOTEQ | LT | LTEQ | GT | GTEQ

fun name :: "TokenType \<Rightarrow> string" where
  "name EOF = ''EOF''"
| "name NEWLINE = ''NEWLINE''"
| "name NUMBER = ''NUMBER''"
| "name IDENT = ''IDENT''"
| "name STRING = ''STRING''"
| "name LABEL = ''LABEL''"
| "name GOTO = ''GOTO''"
| "name PRINT = ''PRINT''"
| "name INPUT = ''INPUT''"
| "name LET = ''LET''"
| "name IF = ''IF''"
| "name THEN = ''THEN''"
| "name ENDIF = ''ENDIF''"
| "name WHILE = ''WHILE''"
| "name REPEAT = ''REPEAT''"
| "name ENDWHILE = ''ENDWHILE''"
| "name EQ = ''EQ''"
| "name PLUS = ''PLUS''"
| "name MINUS = ''MINUS''"
| "name ASTERISK = ''ASTERISK''"
| "name SLASH = ''SLASH''"
| "name EQEQ = ''EQEQ''"
| "name NOTEQ = ''NOTEQ''"
| "name LT = ''LT''"
| "name LTEQ = ''LTEQ''"
| "name GT = ''GT''"
| "name GTEQ = ''GTEQ''"

fun "value" :: "TokenType \<Rightarrow> int" where
  "value EOF = -1"
| "value NEWLINE = 0"
| "value NUMBER = 1"
| "value IDENT = 2"
| "value STRING = 3"
| "value LABEL = 101"
| "value GOTO = 102"
| "value PRINT = 103"
| "value INPUT = 104"
| "value LET = 105"
| "value IF = 106"
| "value THEN = 107"
| "value ENDIF = 108"
| "value WHILE = 109"
| "value REPEAT = 110"
| "value ENDWHILE = 111"
| "value EQ = 201"
| "value PLUS = 202"
| "value MINUS = 203"
| "value ASTERISK = 204"
| "value SLASH = 205"
| "value EQEQ = 206"
| "value NOTEQ = 207"
| "value LT = 208"
| "value LTEQ = 209"
| "value GT = 210"
| "value GTEQ = 211"

text \<open>The members in definition order: what \<^verbatim>\<open>for kind in TokenType\<close> iterates over.\<close>

definition TokenType_members :: "TokenType list" where
  "TokenType_members =
     [EOF, NEWLINE, NUMBER, IDENT, STRING,
      LABEL, GOTO, PRINT, INPUT, LET, IF, THEN, ENDIF, WHILE, REPEAT, ENDWHILE,
      EQ, PLUS, MINUS, ASTERISK, SLASH, EQEQ, NOTEQ, LT, LTEQ, GT, GTEQ]"

text \<open>\<^verbatim>\<open>@dataclass class Token\<close>: the lexeme and its kind.\<close>

record Token =
  text' :: string
  kind :: TokenType

text \<open>
  \<^verbatim>\<open>Token.mapTextToKeywordType\<close>: the first member, in definition order, whose name is the
  text and whose value is in the keyword band; \<open>None\<close> when the loop ends without a match.
\<close>

definition mapTextToKeywordType :: "string \<Rightarrow> TokenType option" where
  "mapTextToKeywordType tokenText =
     find (\<lambda>kind. name kind = tokenText \<and> value kind \<ge> 100 \<and> value kind < 200)
       TokenType_members"


section \<open>Outcomes of a call\<close>

text \<open>
  \<^verbatim>\<open>abort\<close> (both in the lexer and in the parser) ends the process with \<^verbatim>\<open>sys.exit(message)\<close>.
  Each abort site is a constructor carrying what the message is built from; \<open>message\<close> below
  renders the text handed to \<^verbatim>\<open>sys.exit\<close>.
\<close>

datatype error =
    ExpectedNotEq string
  | IllegalCharInString
  | IllegalCharInNumber
  | UnknownToken string
  | ExpectedGot TokenType TokenType
  | UndeclaredLabel string
  | LabelExists string
  | InvalidStatement string TokenType
  | ExpectedComparison string
  | ReferencedBeforeAssignment string
  | UnexpectedToken string
  | Usage
  | CannotOpen string

fun message :: "error \<Rightarrow> string" where
  "message (ExpectedNotEq c) = ''Lexing error. '' @ ''Expected !=, got !'' @ c"
| "message IllegalCharInString = ''Lexing error. '' @ ''Illegal character in string.''"
| "message IllegalCharInNumber = ''Lexing error. '' @ ''Illegal character in number.''"
| "message (UnknownToken c) = ''Lexing error. '' @ ''Unknow token: '' @ c"
| "message (ExpectedGot r k) = ''Error. '' @ ''Expected '' @ name r @ '', got '' @ name k"
| "message (UndeclaredLabel l) = ''Error. '' @ ''Attempting to GOTO to undeclared label: '' @ l"
| "message (LabelExists l) = ''Error. '' @ ''Label already exists: '' @ l"
| "message (InvalidStatement t k) =
     ''Error. '' @ ''Invalid statement at '' @ t @ '' ('' @ name k @ '')''"
| "message (ExpectedComparison t) = ''Error. '' @ ''Expected comparison operator at: '' @ t"
| "message (ReferencedBeforeAssignment t) =
     ''Error. '' @ ''Referencing variable before assignment: '' @ t"
| "message (UnexpectedToken t) = ''Error. '' @ ''Unexpected token at '' @ t"
| "message Usage = ''Error: Compiler needs source file as argument.''"
| "message (CannotOpen path) = ''FileNotFoundError: '' @ path"

text \<open>
  A call either returns a value, or ends the process with an error, or does not return:
  \<open>NoReturn\<close> stands for a loop of the lexer that never ends and for a parser loop whose
  fuel (the bound on iterations that the model adds) is used up.
\<close>

datatype 'a outcome = Returns (returned: 'a) | Exits error | NoReturn

fun andThen :: "'a outcome \<Rightarrow> ('a \<Rightarrow> 'b outcome) \<Rightarrow> 'b outcome" where
  "andThen (Returns x) f = f x"
| "andThen (Exits e) f = Exits e"
| "andThen NoReturn f = NoReturn"

text \<open>A block of statements run one after the other on the same object.\<close>

fun seq :: "('s \<Rightarrow> 's outcome) list \<Rightarrow> 's \<Rightarrow> 's outcome" where
  "seq [] s = Returns s"
| "seq (f # fs) s = andThen (f s) (seq fs)"

section \<open>Lexer (lex.py)\<close>

text \<open>
  Python has no character type: \<^verbatim>\<open>curChar\<close>, \<^verbatim>\<open>peek()\<close> and the class constants are strings
  of length one (and \<^verbatim>\<open>curChar\<close> is the empty string before the first advance), so they are
  strings here too. The alphabet is Isabelle's \<open>char\<close>: a character stands for the code point
  of the same number, \<open>0\<close> to \<open>255\<close>, so a source is a text over the first 256 code points.
\<close>

definition Lexer_EOF :: string where "Lexer_EOF = [CHR 0x00]"
definition Lexer_NEWLINE :: string where "Lexer_NEWLINE = [CHR 0x0A]"
definition Lexer_HASHMARK :: string where "Lexer_HASHMARK = ''#''"
definition Lexer_WHITESPACE :: "string set" where
  "Lexer_WHITESPACE = {'' '', [CHR 0x09], [CHR 0x0D]}"
definition Lexer_DOUBLEQUOTE :: string where "Lexer_DOUBLEQUOTE = [CHR 0x22]"

text \<open>
  \<^verbatim>\<open>str.isdigit\<close>, \<^verbatim>\<open>str.isalpha\<close> and \<^verbatim>\<open>str.isalnum\<close> follow the Unicode database, not
  ASCII. On the code points below 256: the digits are \<^verbatim>\<open>0\<close> to \<^verbatim>\<open>9\<close> and the superscripts
  U+00B2, U+00B3 and U+00B9; the letters are \<^verbatim>\<open>A\<close> to \<^verbatim>\<open>Z\<close>, \<^verbatim>\<open>a\<close> to \<^verbatim>\<open>z\<close>, U+00AA, U+00B5,
  U+00BA and U+00C0 to U+00FF without U+00D7 and U+00F7; the fractions U+00BC to U+00BE are
  numeric, neither digits nor letters. A string is in a class when it is not empty and all
  its characters are; \<^verbatim>\<open>isalnum\<close> holds of a character that is a letter, a digit or numeric.
\<close>

definition digit_char :: "char \<Rightarrow> bool" where
  "digit_char c =
     (let n = (of_char c :: nat)
      in (48 \<le> n \<and> n \<le> 57) \<or> n = 178 \<or> n = 179 \<or> n = 185)"

definition alpha_char :: "char \<Rightarrow> bool" where
  "alpha_char c =
     (let n = (of_char c :: nat)
      in (65 \<le> n \<and> n \<le> 90) \<or> (97 \<le> n \<and> n \<le> 122) \<or> n = 170 \<or> n = 181 \<or> n = 186
         \<or> (192 \<le> n \<and> n \<le> 214) \<or> (216 \<le> n \<and> n \<le> 246) \<or> (248 \<le> n \<and> n \<le> 255))"

definition numeric_char :: "char \<Rightarrow> bool" where
  "numeric_char c =
     (let n = (of_char c :: nat) in digit_char c \<or> (188 \<le> n \<and> n \<le> 190))"

definition isdigit :: "string \<Rightarrow> bool" where
  "isdigit s = (s \<noteq> [] \<and> list_all digit_char s)"

definition isalpha :: "string \<Rightarrow> bool" where
  "isalpha s = (s \<noteq> [] \<and> list_all alpha_char s)"

definition isalnum :: "string \<Rightarrow> bool" where
  "isalnum s = (s \<noteq> [] \<and> list_all (\<lambda>c. alpha_char c \<or> digit_char c \<or> numeric_char c) s)"

text \<open>
  \<^verbatim>\<open>s[i]\<close> for an index below \<open>len(s)\<close>: a negative index counts from the end. Every read of
  the lexer is guarded by \<^verbatim>\<open>curPos (+ 1) >= len(self.source)\<close>, and \<^verbatim>\<open>curPos\<close> starts at
  \<open>-1\<close> and only grows, so the index is in range and IndexError is not a branch.
  \<^verbatim>\<open>s[a:b]\<close> is modelled for the bounds the lexer uses, \<open>0 \<le> a\<close> and \<open>0 \<le> b\<close>.
\<close>

definition getitem :: "string \<Rightarrow> int \<Rightarrow> string" where
  "getitem s i = (if i < 0 then [s ! nat (int (length s) + i)] else [s ! nat i])"

definition slice :: "string \<Rightarrow> int \<Rightarrow> int \<Rightarrow> string" where
  "slice s a b = take (nat b - nat a) (drop (nat a) s)"

record Lexer =
  source :: string
  curChar :: string
  curPos :: int

definition skipCurChar :: "Lexer \<Rightarrow> Lexer" where
  "skipCurChar l =
     (let l = l\<lparr>curPos := curPos l + 1\<rparr>
      in if curPos l \<ge> int (length (source l))
         then l\<lparr>curChar := Lexer_EOF\<rparr>
         else l\<lparr>curChar := getitem (source l) (curPos l)\<rparr>)"

definition Lexer_init :: "string \<Rightarrow> Lexer" where
  "Lexer_init src = skipCurChar \<lparr>source = src @ Lexer_NEWLINE, curChar = [], curPos = -1\<rparr>"

text \<open>
  \<^verbatim>\<open>peek\<close> is a method on the same mutable object as the others, so it is given the same
  shape: it returns its value together with the lexer it leaves behind.
\<close>

definition peek :: "Lexer \<Rightarrow> string \<times> Lexer" where
  "peek l =
     (if curPos l + 1 \<ge> int (length (source l))
      then (Lexer_EOF, l)
      else (getitem (source l) (curPos l + 1), l))"

text \<open>
  \<^verbatim>\<open>while self.curChar in self.WHITESPACE: self.skipCurChar()\<close>. Past the end of the buffer
  the current character is the sentinel, which is no whitespace, so the loop ends from every
  state.
\<close>

function skipWhitespace :: "Lexer \<Rightarrow> Lexer" where
  "skipWhitespace l =
     (if curChar l \<in> Lexer_WHITESPACE then skipWhitespace (skipCurChar l) else l)"
  by pat_completeness auto
termination
proof (relation "measure (\<lambda>l. if curChar l \<in> Lexer_WHITESPACE
                               then Suc (nat (int (length (source l)) - curPos l)) else 0)")
  show "wf (measure (\<lambda>l. if curChar l \<in> Lexer_WHITESPACE
                           then Suc (nat (int (length (source l)) - curPos l)) else 0))"
    by simp
next
  fix l :: Lexer
  assume "curChar l \<in> Lexer_WHITESPACE"
  then show "(skipCurChar l, l) \<in> measure (\<lambda>l. if curChar l \<in> Lexer_WHITESPACE
                 then Suc (nat (int (length (source l)) - curPos l)) else 0)"
    by (auto simp: skipCurChar_def Let_def Lexer_WHITESPACE_def Lexer_EOF_def)
qed

declare skipWhitespace.simps [simp del]

text \<open>
  \<^verbatim>\<open>while self.curChar != self.NEWLINE: self.skipCurChar()\<close> inside \<^verbatim>\<open>skipComment\<close>. The loop
  runs forever when no newline is left in the buffer, hence the \<open>option\<close>: \<open>None\<close> is
  "does not return".
\<close>

partial_function (option) skipComment_loop :: "Lexer \<Rightarrow> Lexer option" where
  "skipComment_loop l =
     (if curChar l \<noteq> Lexer_NEWLINE then skipComment_loop (skipCurChar l) else Some l)"

declare skipComment_loop.simps [code]

definition skipComment :: "Lexer \<Rightarrow> Lexer option" where
  "skipComment l = (if curChar l = Lexer_HASHMARK then skipComment_loop l else Some l)"

text \<open>
  The loop of the string literal: it leaves with an error on a forbidden character, returns
  at the closing quote, and runs forever when neither is left.
\<close>

partial_function (option) string_loop :: "Lexer \<Rightarrow> (error + Lexer) option" where
  "string_loop l =
     (if curChar l \<noteq> Lexer_DOUBLEQUOTE
      then (if curChar l = [CHR 0x0D] \<or> curChar l = [CHR 0x0A] \<or> curChar l = [CHR 0x09]
               \<or> curChar l = [CHR 0x5C] \<or> curChar l = ''%''
            then Some (Inl IllegalCharInString)
            else string_loop (skipCurChar l))
      else Some (Inr l))"

declare string_loop.simps [code]

text \<open>\<^verbatim>\<open>while self.peek().isdigit(): self.skipCurChar()\<close> (twice in the number branch).\<close>

function digits_loop :: "Lexer \<Rightarrow> Lexer" where
  "digits_loop l =
     (let (c, l) = peek l in if isdigit c then digits_loop (skipCurChar l) else l)"
  by pat_completeness auto
termination
  by (relation "measure (\<lambda>l. nat (int (length (source l)) - curPos l))")
     (auto simp: peek_def skipCurChar_def Let_def Lexer_EOF_def isdigit_def digit_char_def
           split: if_splits)

declare digits_loop.simps [simp del]

text \<open>\<^verbatim>\<open>while self.peek().isalnum(): self.skipCurChar()\<close>.\<close>

function alnum_loop :: "Lexer \<Rightarrow> Lexer" where
  "alnum_loop l =
     (let (c, l) = peek l in if isalnum c then alnum_loop (skipCurChar l) else l)"
  by pat_completeness auto
termination
  by (relation "measure (\<lambda>l. nat (int (length (source l)) - curPos l))")
     (auto simp: peek_def skipCurChar_def Let_def Lexer_EOF_def isalnum_def alpha_char_def
           digit_char_def numeric_char_def split: if_splits)

declare alnum_loop.simps [simp del]

text \<open>
  \<^verbatim>\<open>Lexer.getToken\<close>. The token and the lexer after the call are returned together; the
  final \<^verbatim>\<open>self.skipCurChar()\<close> is shared by all branches that do not abort.
\<close>

definition getToken :: "Lexer \<Rightarrow> (Token \<times> Lexer) outcome" where
  "getToken l0 =
     (case skipComment (skipWhitespace l0) of
        None \<Rightarrow> NoReturn
      | Some l \<Rightarrow>
          andThen
            (if curChar l = ''+'' then Returns (\<lparr>text' = curChar l, kind = PLUS\<rparr>, l)
             else if curChar l = ''-'' then Returns (\<lparr>text' = curChar l, kind = MINUS\<rparr>, l)
             else if curChar l = ''*'' then Returns (\<lparr>text' = curChar l, kind = ASTERISK\<rparr>, l)
             else if curChar l = ''/'' then Returns (\<lparr>text' = curChar l, kind = SLASH\<rparr>, l)
             else if curChar l = Lexer_NEWLINE
               then Returns (\<lparr>text' = curChar l, kind = NEWLINE\<rparr>, l)
             else if curChar l = Lexer_EOF then Returns (\<lparr>text' = curChar l, kind = EOF\<rparr>, l)
             else if curChar l = ''='' then
               (let (c, l) = peek l in
                if c = ''='' then
                  (let lastChar = curChar l; l = skipCurChar l
                   in Returns (\<lparr>text' = lastChar @ curChar l, kind = EQEQ\<rparr>, l))
                else Returns (\<lparr>text' = curChar l, kind = EQ\<rparr>, l))
             else if curChar l = ''>'' then
               (let (c, l) = peek l in
                if c = ''='' then
                  (let lastChar = curChar l; l = skipCurChar l
                   in Returns (\<lparr>text' = lastChar @ curChar l, kind = GTEQ\<rparr>, l))
                else Returns (\<lparr>text' = curChar l, kind = GT\<rparr>, l))
             else if curChar l = ''<'' then
               (let (c, l) = peek l in
                if c = ''='' then
                  (let lastChar = curChar l; l = skipCurChar l
                   in Returns (\<lparr>text' = lastChar @ curChar l, kind = LTEQ\<rparr>, l))
                else Returns (\<lparr>text' = curChar l, kind = LT\<rparr>, l))
             else if curChar l = ''!'' then
               (let (c, l) = peek l in
                if c = ''='' then
                  (let lastChar = curChar l; l = skipCurChar l
                   in Returns (\<lparr>text' = lastChar @ curChar l, kind = NOTEQ\<rparr>, l))
                else Exits (ExpectedNotEq (fst (peek l))))
             else if curChar l = Lexer_DOUBLEQUOTE then
               (let l = skipCurChar l; startPos = curPos l
                in case string_loop l of
                     None \<Rightarrow> NoReturn
                   | Some (Inl e) \<Rightarrow> Exits e
                   | Some (Inr l) \<Rightarrow>
                       Returns (\<lparr>text' = slice (source l) startPos (curPos l), kind = STRING\<rparr>, l))
             else if isdigit (curChar l) then
               (let startPos = curPos l; l = digits_loop l; (c, l) = peek l in
                if c = ''.'' then
                  (let l = skipCurChar l; (c, l) = peek l in
                   if \<not> isdigit c then Exits IllegalCharInNumber
                   else (let l = digits_loop l
                         in Returns (\<lparr>text' = slice (source l) startPos (curPos l + 1),
                                       kind = NUMBER\<rparr>, l)))
                else Returns (\<lparr>text' = slice (source l) startPos (curPos l + 1),
                               kind = NUMBER\<rparr>, l))
             else if isalpha (curChar l) then
               (let startPos = curPos l; l = alnum_loop l;
                    tokenText = slice (source l) startPos (curPos l + 1);
                    keywordType = mapTextToKeywordType tokenText
                in case keywordType of
                     None \<Rightarrow> Returns (\<lparr>text' = tokenText, kind = IDENT\<rparr>, l)
                   | Some k \<Rightarrow> Returns (\<lparr>text' = tokenText, kind = k\<rparr>, l))
             else Exits (UnknownToken (curChar l)))
            (\<lambda>(token, l). Returns (token, skipCurChar l)))"


section \<open>Emitter\<close>

text \<open>
  Modelled from the spec: emit.py (the class \<^verbatim>\<open>Emitter\<close> with \<^verbatim>\<open>emit\<close>, \<^verbatim>\<open>emitLine\<close>,
  \<^verbatim>\<open>headerLine\<close> and \<^verbatim>\<open>writeFile\<close>) is not among the sources. The spec: two ordered
  sequences of text lines (header, body) plus an output destination; created empty;
  \<^verbatim>\<open>emit(text)\<close> appends text to the tail of the most recently started body line without
  terminating it; \<^verbatim>\<open>emitLine(text)\<close> appends text and terminates the line;
  \<^verbatim>\<open>headerLine(text)\<close> appends a complete, already-terminated line to the header buffer;
  finalizing writes the concatenation of the header buffer followed by the body buffer to the
  destination. No deduplication, formatting or validation.
\<close>

record Emitter =
  fullPath :: string
  header :: "string list"
  code :: "string list"
  openLine :: string

definition Emitter_init :: "string \<Rightarrow> Emitter" where
  "Emitter_init path = \<lparr>fullPath = path, header = [], code = [], openLine = []\<rparr>"

definition emit :: "string \<Rightarrow> Emitter \<Rightarrow> Emitter" where
  "emit t e = e\<lparr>openLine := openLine e @ t\<rparr>"

definition emitLine :: "string \<Rightarrow> Emitter \<Rightarrow> Emitter" where
  "emitLine t e = e\<lparr>code := code e @ [openLine e @ t], openLine := []\<rparr>"

definition headerLine :: "string \<Rightarrow> Emitter \<Rightarrow> Emitter" where
  "headerLine t e = e\<lparr>header := header e @ [t]\<rparr>"

definition outputText :: "Emitter \<Rightarrow> string" where
  "outputText e =
     concat (map (\<lambda>line. line @ [CHR 0x0A]) (header e))
     @ concat (map (\<lambda>line. line @ [CHR 0x0A]) (code e)) @ openLine e"

text \<open>
  The world outside the process, as far as \<^verbatim>\<open>main\<close> touches it: the files by path, the
  writes done so far (destination and text, oldest first) and the lines printed.
\<close>

record World =
  files :: "string \<rightharpoonup> string"
  written :: "(string \<times> string) list"
  stdout :: "string list"

definition writeFile :: "Emitter \<Rightarrow> World \<Rightarrow> World" where
  "writeFile e w =
     w\<lparr>files := (files w)(fullPath e \<mapsto> outputText e),
       written := written w @ [(fullPath e, outputText e)]\<rparr>"

section \<open>Parser (parse.py)\<close>

text \<open>
  The parser object. The lexer and the emitter that \<^verbatim>\<open>main\<close> hands to the constructor are
  used by nobody else while the parser runs, so they are fields of the state. The three
  Python sets are finite sets.
\<close>

record Parser =
  lexer :: Lexer
  emitter :: Emitter
  symbolsDeclared :: "string fset"
  labelsDeclared :: "string fset"
  labelsGotoed :: "string fset"
  curToken :: Token
  peekToken :: Token

definition curTokeHasType :: "TokenType \<Rightarrow> Parser \<Rightarrow> bool" where
  "curTokeHasType k p = (k = kind (curToken p))"

definition curTokenIsComparisonOperator :: "Parser \<Rightarrow> bool" where
  "curTokenIsComparisonOperator p =
     (curTokeHasType GT p \<or> curTokeHasType GTEQ p \<or>
      curTokeHasType LT p \<or> curTokeHasType LTEQ p \<or>
      curTokeHasType EQEQ p \<or> curTokeHasType NOTEQ p)"

text \<open>
  \<^verbatim>\<open>skipCurToken(requiredType=None)\<close>. Every member of a plain \<^verbatim>\<open>enum.Enum\<close> is truthy, so
  \<^verbatim>\<open>if requiredType and ...\<close> tests exactly whether a type was passed.
\<close>

definition skipCurToken :: "TokenType option \<Rightarrow> Parser \<Rightarrow> Parser outcome" where
  "skipCurToken requiredType p =
     (if requiredType \<noteq> None \<and> \<not> curTokeHasType (the requiredType) p
      then Exits (ExpectedGot (the requiredType) (kind (curToken p)))
      else andThen (getToken (lexer p))
             (\<lambda>(token, l). Returns (p\<lparr>curToken := peekToken p, peekToken := token, lexer := l\<rparr>)))"

text \<open>
  The constructor: the fields, then \<^verbatim>\<open>skipCurToken()\<close> twice. Without a required type the
  call checks nothing, so the two calls are two pulls from the lexer: the first fills
  \<^verbatim>\<open>peekToken\<close> (and copies the initial \<^verbatim>\<open>None\<close> into \<^verbatim>\<open>curToken\<close>), the second moves it to
  \<^verbatim>\<open>curToken\<close> and pulls again. No token is \<^verbatim>\<open>None\<close> once the constructor has returned.
\<close>

definition Parser_init :: "Lexer \<Rightarrow> Emitter \<Rightarrow> Parser outcome" where
  "Parser_init lx em =
     andThen (getToken lx) (\<lambda>(t1, l1).
     andThen (getToken l1) (\<lambda>(t2, l2).
       Returns \<lparr>lexer = l2, emitter = em,
                symbolsDeclared = {||}, labelsDeclared = {||}, labelsGotoed = {||},
                curToken = t1, peekToken = t2\<rparr>))"

text \<open>Calls on \<^verbatim>\<open>self.emitter\<close>; the text may read the parser (the current token).\<close>

definition emitter_emit :: "(Parser \<Rightarrow> string) \<Rightarrow> Parser \<Rightarrow> Parser outcome" where
  "emitter_emit t p = Returns (p\<lparr>emitter := emit (t p) (emitter p)\<rparr>)"

definition emitter_emitLine :: "(Parser \<Rightarrow> string) \<Rightarrow> Parser \<Rightarrow> Parser outcome" where
  "emitter_emitLine t p = Returns (p\<lparr>emitter := emitLine (t p) (emitter p)\<rparr>)"

definition emitter_headerLine :: "(Parser \<Rightarrow> string) \<Rightarrow> Parser \<Rightarrow> Parser outcome" where
  "emitter_headerLine t p = Returns (p\<lparr>emitter := headerLine (t p) (emitter p)\<rparr>)"

text \<open>
  A \<^verbatim>\<open>while\<close> loop of the parser, with fuel: at most \<open>n\<close> iterations. The loops of the parser
  pull tokens from the lexer, and the recursion of \<^verbatim>\<open>statement\<close> goes through them.
\<close>

primrec whileP :: "nat \<Rightarrow> ('s \<Rightarrow> bool) \<Rightarrow> ('s \<Rightarrow> 's outcome) \<Rightarrow> 's \<Rightarrow> 's outcome" where
  "whileP 0 c body s = (if c s then NoReturn else Returns s)"
| "whileP (Suc n) c body s = (if c s then andThen (body s) (whileP n c body) else Returns s)"

definition primary :: "Parser \<Rightarrow> Parser outcome" where
  "primary p =
     (if curTokeHasType NUMBER p then
        seq [emitter_emit (\<lambda>p. text' (curToken p)), skipCurToken None] p
      else if curTokeHasType IDENT p then
        (if text' (curToken p) |\<notin>| symbolsDeclared p
         then Exits (ReferencedBeforeAssignment (text' (curToken p)))
         else seq [emitter_emit (\<lambda>p. text' (curToken p)), skipCurToken None] p)
      else Exits (UnexpectedToken (text' (curToken p))))"

definition unary :: "Parser \<Rightarrow> Parser outcome" where
  "unary p =
     seq [(\<lambda>p. if curTokeHasType PLUS p \<or> curTokeHasType MINUS p
                then seq [emitter_emit (\<lambda>p. text' (curToken p)), skipCurToken None] p
                else Returns p),
          primary] p"

definition term' :: "nat \<Rightarrow> Parser \<Rightarrow> Parser outcome" where
  "term' n p =
     seq [unary,
          whileP n (\<lambda>p. curTokeHasType ASTERISK p \<or> curTokeHasType SLASH p)
            (seq [emitter_emit (\<lambda>p. text' (curToken p)), skipCurToken None, unary])] p"

definition expression :: "nat \<Rightarrow> Parser \<Rightarrow> Parser outcome" where
  "expression n p =
     seq [term' n,
          whileP n (\<lambda>p. curTokeHasType PLUS p \<or> curTokeHasType MINUS p)
            (seq [emitter_emit (\<lambda>p. text' (curToken p)), skipCurToken None, term' n])] p"

definition comparison :: "nat \<Rightarrow> Parser \<Rightarrow> Parser outcome" where
  "comparison n p =
     seq [expression n,
          (\<lambda>p. if curTokenIsComparisonOperator p
                then seq [emitter_emit (\<lambda>p. text' (curToken p)), skipCurToken None,
                          expression n] p
                else Exits (ExpectedComparison (text' (curToken p)))),
          whileP n curTokenIsComparisonOperator
            (seq [emitter_emit (\<lambda>p. text' (curToken p)), skipCurToken None, expression n])] p"

definition nl :: "nat \<Rightarrow> Parser \<Rightarrow> Parser outcome" where
  "nl n p =
     seq [skipCurToken (Some NEWLINE),
          whileP n (curTokeHasType NEWLINE) (skipCurToken None)] p"

text \<open>
  \<^verbatim>\<open>Parser.statement\<close>. The fuel bounds the nesting of statements and the iterations of the
  loops inside; \<^verbatim>\<open>self.nl()\<close> at the end is shared by all branches.
\<close>

primrec statement :: "nat \<Rightarrow> Parser \<Rightarrow> Parser outcome" where
  "statement 0 p = NoReturn"
| "statement (Suc n) p =
     seq [(\<lambda>p.
        if curTokeHasType PRINT p then
          seq [skipCurToken None,
               (\<lambda>p. if curTokeHasType STRING p then
                       seq [emitter_emitLine (\<lambda>p. ''printf('' @ [CHR 0x22] @ text' (curToken p)
                                                  @ [CHR 0x5C] @ ''n'' @ [CHR 0x22] @ '');''),
                            skipCurToken None] p
                     else
                       seq [emitter_emit (\<lambda>p. ''printf('' @ [CHR 0x22] @ ''%.2f'' @ [CHR 0x5C]
                                               @ ''n'' @ [CHR 0x22] @ '', (float)(''),
                            expression n,
                            emitter_emitLine (\<lambda>p. ''));'')] p)] p
        else if curTokeHasType IF p then
          seq [skipCurToken None,
               emitter_emit (\<lambda>p. ''if(''),
               comparison n,
               skipCurToken (Some THEN),
               nl n,
               emitter_emitLine (\<lambda>p. ''){''),
               whileP n (\<lambda>p. \<not> curTokeHasType ENDIF p) (statement n),
               skipCurToken (Some ENDIF),
               emitter_emitLine (\<lambda>p. ''}'')] p
        else if curTokeHasType WHILE p then
          seq [skipCurToken None,
               emitter_emit (\<lambda>p. ''while(''),
               comparison n,
               skipCurToken (Some REPEAT),
               nl n,
               emitter_emitLine (\<lambda>p. ''){''),
               whileP n (\<lambda>p. \<not> curTokeHasType ENDWHILE p) (statement n),
               skipCurToken (Some ENDWHILE),
               emitter_emitLine (\<lambda>p. ''}'')] p
        else if curTokeHasType LABEL p then
          seq [skipCurToken None,
               (\<lambda>p. if text' (curToken p) |\<in>| labelsDeclared p
                     then Exits (LabelExists (text' (curToken p)))
                     else Returns p),
               (\<lambda>p. Returns (p\<lparr>labelsDeclared :=
                                   finsert (text' (curToken p)) (labelsDeclared p)\<rparr>)),
               emitter_emitLine (\<lambda>p. text' (curToken p) @ '':''),
               skipCurToken (Some IDENT)] p
        else if curTokeHasType GOTO p then
          seq [skipCurToken None,
               (\<lambda>p. Returns (p\<lparr>labelsGotoed :=
                                   finsert (text' (curToken p)) (labelsGotoed p)\<rparr>)),
               emitter_emitLine (\<lambda>p. ''goto '' @ text' (curToken p) @ '';''),
               skipCurToken (Some IDENT)] p
        else if curTokeHasType LET p then
          seq [skipCurToken None,
               (\<lambda>p. if text' (curToken p) |\<notin>| symbolsDeclared p then
                       seq [(\<lambda>p. Returns (p\<lparr>symbolsDeclared :=
                                finsert (text' (curToken p)) (symbolsDeclared p)\<rparr>)),
                            emitter_headerLine (\<lambda>p. ''float '' @ text' (curToken p) @ '';'')] p
                     else Returns p),
               emitter_emit (\<lambda>p. text' (curToken p) @ '' = ''),
               skipCurToken (Some IDENT),
               skipCurToken (Some EQ),
               expression n,
               emitter_emitLine (\<lambda>p. '';'')] p
        else if curTokeHasType INPUT p then
          seq [skipCurToken None,
               (\<lambda>p. if text' (curToken p) |\<notin>| symbolsDeclared p then
                       seq [(\<lambda>p. Returns (p\<lparr>symbolsDeclared :=
                                finsert (text' (curToken p)) (symbolsDeclared p)\<rparr>)),
                            emitter_headerLine (\<lambda>p. ''float '' @ text' (curToken p) @ '';'')] p
                     else Returns p),
               emitter_emitLine (\<lambda>p. ''if(0 == scanf('' @ [CHR 0x22] @ ''%'' @ ''f''
                                       @ [CHR 0x22] @ '', &'' @ text' (curToken p) @ '')) {''),
               emitter_emitLine (\<lambda>p. text' (curToken p) @ '' = 0;''),
               emitter_emit (\<lambda>p. ''scanf('' @ [CHR 0x22] @ ''%''),
               emitter_emitLine (\<lambda>p. ''*s'' @ [CHR 0x22] @ '');''),
               emitter_emitLine (\<lambda>p. ''}''),
               skipCurToken (Some IDENT)] p
        else Exits (InvalidStatement (text' (curToken p)) (kind (curToken p)))),
      nl n] p"

text \<open>
  \<^verbatim>\<open>for label in self.labelsGotoed\<close>: Python leaves the order in which a set is iterated to
  the hashes of its elements, so the order is a parameter \<open>ord\<close> of \<open>program\<close>, any
  function that lists the elements of a set.
\<close>

definition iteration_order :: "(string fset \<Rightarrow> string list) \<Rightarrow> bool" where
  "iteration_order ord = (\<forall>S. fset_of_list (ord S) = S)"

fun labels_loop :: "string list \<Rightarrow> Parser \<Rightarrow> Parser outcome" where
  "labels_loop [] p = Returns p"
| "labels_loop (label # labels) p =
     (if label |\<notin>| labelsDeclared p then Exits (UndeclaredLabel label)
      else labels_loop labels p)"

definition program :: "(string fset \<Rightarrow> string list) \<Rightarrow> nat \<Rightarrow> Parser \<Rightarrow> Parser outcome" where
  "program ord n p =
     seq [emitter_headerLine (\<lambda>p. ''#include <stdio.h>''),
          emitter_headerLine (\<lambda>p. ''int main(void){''),
          whileP n (curTokeHasType NEWLINE) (skipCurToken None),
          whileP n (\<lambda>p. \<not> curTokeHasType EOF p) (statement n),
          (\<lambda>p. labels_loop (ord (labelsGotoed p)) p),
          emitter_emitLine (\<lambda>p. ''return 0;''),
          emitter_emitLine (\<lambda>p. ''}'')] p"

section \<open>Driver (teenytiny.py)\<close>

definition print :: "string \<Rightarrow> World \<Rightarrow> World" where
  "print line w = w\<lparr>stdout := stdout w @ [line]\<rparr>"

text \<open>
  \<^verbatim>\<open>main\<close>, on the command line \<open>argv\<close> and the world \<open>w\<close>. It returns how the process ends
  and the world it leaves. The object \<^verbatim>\<open>emitter\<close> that \<^verbatim>\<open>main\<close> writes out is the one the
  parser has filled, the field of the parser after \<^verbatim>\<open>program\<close>.
\<close>

definition main ::
  "(string fset \<Rightarrow> string list) \<Rightarrow> nat \<Rightarrow> string list \<Rightarrow> World \<Rightarrow> unit outcome \<times> World" where
  "main ord n argv w =
     (let w = print ''Teeny Tiny Compiler'' w in
      if length argv \<noteq> 2 then (Exits Usage, w)
      else case files w (argv ! 1) of
        None \<Rightarrow> (Exits (CannotOpen (argv ! 1)), w)
      | Some src \<Rightarrow>
          (let lx = Lexer_init src; em = Emitter_init ''out.c'' in
           case Parser_init lx em of
             Exits e \<Rightarrow> (Exits e, w)
           | NoReturn \<Rightarrow> (NoReturn, w)
           | Returns parser \<Rightarrow>
               (case program ord n parser of
                  Exits e \<Rightarrow> (Exits e, w)
                | NoReturn \<Rightarrow> (NoReturn, w)
                | Returns parser \<Rightarrow>
                    (let w = writeFile (emitter parser) w;
                         w = print ''Compiling completed.'' w
                     in (Returns (), w)))))"


section \<open>Notions used in the statements\<close>

text \<open>
  The lexer at position \<open>i\<close> of a buffer, as \<^verbatim>\<open>skipCurChar\<close> leaves it: the current
  character is the one at the position, or the sentinel past the end. \<open>lexer_inv\<close> holds of
  the lexer the constructor builds and of every lexer \<^verbatim>\<open>skipCurChar\<close> returns.
\<close>

definition lexer_at :: "string \<Rightarrow> int \<Rightarrow> Lexer" where
  "lexer_at src i =
     \<lparr>source = src,
      curChar = (if i \<ge> int (length src) then Lexer_EOF else getitem src i),
      curPos = i\<rparr>"

definition lexer_inv :: "Lexer \<Rightarrow> bool" where
  "lexer_inv l = (0 \<le> curPos l \<and> l = lexer_at (source l) (curPos l))"

text \<open>The second lexer is over the same buffer, at the same position or further.\<close>

definition advanced :: "Lexer \<Rightarrow> Lexer \<Rightarrow> bool" where
  "advanced l l' = (source l' = source l \<and> curPos l \<le> curPos l')"

text \<open>The tokens of \<open>n\<close> calls of \<^verbatim>\<open>getToken\<close> in a row, as the parser pulls them.\<close>

fun getTokens :: "nat \<Rightarrow> Lexer \<Rightarrow> (Token list \<times> Lexer) outcome" where
  "getTokens 0 l = Returns ([], l)"
| "getTokens (Suc n) l =
     andThen (getToken l) (\<lambda>(t, l).
     andThen (getTokens n l) (\<lambda>(ts, l). Returns (t # ts, l)))"


text \<open>
  The parser over a source text, built as \<^verbatim>\<open>main\<close> builds it: the lexer, an emitter for
  \<^verbatim>\<open>out.c\<close>, and the parser on both.
\<close>

definition parser_of :: "string \<Rightarrow> Parser outcome" where
  "parser_of src = Parser_init (Lexer_init src) (Emitter_init ''out.c'')"

text \<open>
  \<^verbatim>\<open>program\<close> up to the end of its second loop, that is, until the whole input is parsed
  and before the labels are checked; and what \<^verbatim>\<open>program\<close> does after the check.
\<close>

definition parsed :: "nat \<Rightarrow> Parser \<Rightarrow> Parser outcome" where
  "parsed n p =
     seq [emitter_headerLine (\<lambda>p. ''#include <stdio.h>''),
          emitter_headerLine (\<lambda>p. ''int main(void){''),
          whileP n (curTokeHasType NEWLINE) (skipCurToken None),
          whileP n (\<lambda>p. \<not> curTokeHasType EOF p) (statement n)] p"

definition finish :: "Parser \<Rightarrow> Parser" where
  "finish p = p\<lparr>emitter := emitLine ''}'' (emitLine ''return 0;'' (emitter p))\<rparr>"

text \<open>
  \<open>refines f g\<close>: wherever \<open>f\<close> has a result (it returns or exits), \<open>g\<close> has the same one.
  It relates a parser function to the same function with more fuel.
\<close>

definition refines :: "('s \<Rightarrow> 's outcome) \<Rightarrow> ('s \<Rightarrow> 's outcome) \<Rightarrow> bool" where
  "refines f g = (\<forall>s. f s \<noteq> NoReturn \<longrightarrow> g s = f s)"

text \<open>\<open>preserves I f\<close>: when \<open>f\<close> returns from a state where \<open>I\<close> holds, \<open>I\<close> holds after.\<close>

definition preserves :: "('s \<Rightarrow> bool) \<Rightarrow> ('s \<Rightarrow> 's outcome) \<Rightarrow> bool" where
  "preserves I f = (\<forall>s s'. I s \<longrightarrow> f s = Returns s' \<longrightarrow> I s')"

text \<open>
  The line \<^verbatim>\<open>LET\<close> and \<^verbatim>\<open>INPUT\<close> put into the header for a name, and the invariant that ties
  the header to the set of declared names: the line of a name is in the header once if
  the name is in the set, and not at all otherwise.
\<close>

definition declLine :: "string \<Rightarrow> string" where
  "declLine x = ''float '' @ x @ '';''"

definition decl_inv :: "Parser \<Rightarrow> bool" where
  "decl_inv p =
     (\<forall>x. count_list (header (emitter p)) (declLine x)
            = (if x |\<in>| symbolsDeclared p then 1 else 0))"

text \<open>The emitter of the parser writes to the given path.\<close>

definition path_inv :: "string \<Rightarrow> Parser \<Rightarrow> bool" where
  "path_inv path p = (fullPath (emitter p) = path)"

text \<open>
  A lexer as the constructor leaves it and as it stays: the invariant holds and the buffer
  ends with the newline that the constructor appends. \<open>remaining\<close> is the number of
  positions from the current one to the end of the buffer.
\<close>

definition lexer_ok :: "Lexer \<Rightarrow> bool" where
  "lexer_ok l = (lexer_inv l \<and> source l \<noteq> [] \<and> last (source l) = CHR 0x0A)"

definition remaining :: "Lexer \<Rightarrow> nat" where
  "remaining l = nat (int (length (source l)) - curPos l)"

text \<open>
  The tokens the parser may still see: the two it holds, when they are not of kind \<open>EOF\<close>,
  and at most one for each position that remains in the buffer.
\<close>

definition parser_ok :: "Parser \<Rightarrow> bool" where
  "parser_ok p = lexer_ok (lexer p)"

definition pending :: "Parser \<Rightarrow> nat" where
  "pending p =
     (if kind (curToken p) \<noteq> EOF then 1 else 0)
     + (if kind (peekToken p) \<noteq> EOF then 1 else 0)
     + remaining (lexer p)"

text \<open>
  With more fuel than tokens pending, \<open>f\<close> has a result, and when it returns no more
  tokens are pending than before (\<open>finishes\<close>) or fewer, when the current token satisfies
  \<open>C\<close> (\<open>consumes\<close>). A \<open>quiet\<close> step has a result and touches neither the tokens nor the
  lexer.
\<close>

definition finishes :: "nat \<Rightarrow> (Parser \<Rightarrow> Parser outcome) \<Rightarrow> bool" where
  "finishes n f =
     (\<forall>p. parser_ok p \<and> pending p < n \<longrightarrow>
        f p \<noteq> NoReturn
        \<and> (\<forall>p'. f p = Returns p' \<longrightarrow> parser_ok p' \<and> pending p' \<le> pending p))"

definition consumes :: "nat \<Rightarrow> (Token \<Rightarrow> bool) \<Rightarrow> (Parser \<Rightarrow> Parser outcome) \<Rightarrow> bool" where
  "consumes n C f =
     (\<forall>p. parser_ok p \<and> pending p < n \<and> C (curToken p) \<longrightarrow>
        f p \<noteq> NoReturn
        \<and> (\<forall>p'. f p = Returns p' \<longrightarrow> parser_ok p' \<and> pending p' < pending p))"

definition quiet :: "(Parser \<Rightarrow> Parser outcome) \<Rightarrow> bool" where
  "quiet f =
     (\<forall>p. f p \<noteq> NoReturn
        \<and> (\<forall>p'. f p = Returns p' \<longrightarrow>
              curToken p' = curToken p \<and> peekToken p' = peekToken p \<and> lexer p' = lexer p))"

text \<open>
  The names that follow a token of kind \<open>K\<close> in a list of tokens: with \<open>GOTO\<close>, the labels
  that the GOTO statements of a program name, with \<open>LABEL\<close>, the labels that its LABEL
  statements name.
\<close>

fun names_after :: "TokenType \<Rightarrow> Token list \<Rightarrow> string list" where
  "names_after K [] = []"
| "names_after K [t] = []"
| "names_after K (t # u # ts) =
     (if kind t = K then [text' u] else []) @ names_after K (u # ts)"

text \<open>
  \<open>tracks l0 ts p\<close>: the parser \<open>p\<close> has read the tokens \<open>ts\<close> from the lexer \<open>l0\<close>. The
  tokens \<open>ts\<close> followed by the lookahead token are what \<^verbatim>\<open>getToken\<close> returns, call after
  call, from \<open>l0\<close>; the last of \<open>ts\<close> is the current token; no token before it is of kind
  \<open>EOF\<close>; and the two sets of labels hold exactly the names that follow a \<open>GOTO\<close> token and a
  \<open>LABEL\<close> token in \<open>ts\<close>.
\<close>

definition tracks :: "Lexer \<Rightarrow> Token list \<Rightarrow> Parser \<Rightarrow> bool" where
  "tracks l0 ts p =
     (ts \<noteq> [] \<and> last ts = curToken p
      \<and> getTokens (Suc (length ts)) l0 = Returns (ts @ [peekToken p], lexer p)
      \<and> (\<forall>t \<in> set (butlast ts). kind t \<noteq> EOF)
      \<and> labelsGotoed p = fset_of_list (names_after GOTO ts)
      \<and> labelsDeclared p = fset_of_list (names_after LABEL ts))"

text \<open>
  \<open>keeps l0 C f\<close>: when \<open>f\<close> returns from a parser that tracks some tokens and whose current
  token satisfies \<open>C\<close>, the parser it returns tracks some tokens too. A \<open>still\<close> step leaves
  the tokens, the lexer and the two sets of labels as they are.
\<close>

definition keeps :: "Lexer \<Rightarrow> (Token \<Rightarrow> bool) \<Rightarrow> (Parser \<Rightarrow> Parser outcome) \<Rightarrow> bool" where
  "keeps l0 C f =
     (\<forall>p q ts. tracks l0 ts p \<and> C (curToken p) \<and> f p = Returns q \<longrightarrow> (\<exists>ts'. tracks l0 ts' q))"

definition still :: "(Parser \<Rightarrow> Parser outcome) \<Rightarrow> bool" where
  "still f =
     (\<forall>p q. f p = Returns q \<longrightarrow>
        curToken q = curToken p \<and> peekToken q = peekToken p \<and> lexer q = lexer p
        \<and> labelsGotoed q = labelsGotoed p \<and> labelsDeclared q = labelsDeclared p)"

section \<open>The keyword lookup\<close>

lemma mapTextToKeywordType_chain:
  "mapTextToKeywordType s =
     (if s = ''LABEL'' then Some LABEL else if s = ''GOTO'' then Some GOTO
      else if s = ''PRINT'' then Some PRINT else if s = ''INPUT'' then Some INPUT
      else if s = ''LET'' then Some LET else if s = ''IF'' then Some IF
      else if s = ''THEN'' then Some THEN else if s = ''ENDIF'' then Some ENDIF
      else if s = ''WHILE'' then Some WHILE else if s = ''REPEAT'' then Some REPEAT
      else if s = ''ENDWHILE'' then Some ENDWHILE else None)"
  unfolding mapTextToKeywordType_def TokenType_members_def by auto

text \<open>
  C6. \<^verbatim>\<open>mapTextToKeywordType\<close> is a function of the text alone; it returns the kind \<open>K\<close>
  exactly when the name of \<open>K\<close> is the text and the value of \<open>K\<close> is in the keyword band
  (at least 100, below 200), and \<open>None\<close> exactly when there is no such kind; the names of
  kinds outside the band, such as \<open>EOF\<close> and \<open>EQ\<close>, are no keywords.
\<close>

theorem mapTextToKeywordType_spec:
  "(mapTextToKeywordType s = Some K) = (name K = s \<and> 100 \<le> value K \<and> value K < 200)
   \<and> (mapTextToKeywordType s = None)
       = (\<nexists>K'. name K' = s \<and> 100 \<le> value K' \<and> value K' < 200)
   \<and> mapTextToKeywordType (name EOF) = None
   \<and> mapTextToKeywordType (name EQ) = None"
proof -
  have some: "\<And>k. (mapTextToKeywordType s = Some k)
                 = (name k = s \<and> 100 \<le> value k \<and> value k < 200)"
    subgoal for k unfolding mapTextToKeywordType_chain by (cases k) auto
    done
  have none: "(mapTextToKeywordType s = None)
                = (\<nexists>K'. name K' = s \<and> 100 \<le> value K' \<and> value K' < 200)"
    using some by (metis not_Some_eq)
  have "mapTextToKeywordType (name EOF) = None" "mapTextToKeywordType (name EQ) = None"
    by (simp_all add: mapTextToKeywordType_chain)
  with some none show ?thesis by blast
qed

section \<open>The lexer: position and invariant\<close>

lemma advanced_refl: "advanced l l"
  by (simp add: advanced_def)

lemma advanced_trans: "advanced a b \<Longrightarrow> advanced b c \<Longrightarrow> advanced a c"
  by (simp add: advanced_def)

lemma skipCurChar_source: "source (skipCurChar l) = source l"
  by (simp add: skipCurChar_def Let_def)

lemma skipCurChar_curPos: "curPos (skipCurChar l) = curPos l + 1"
  by (simp add: skipCurChar_def Let_def)

lemma skipCurChar_advanced: "advanced l (skipCurChar l)"
  by (simp add: advanced_def skipCurChar_source skipCurChar_curPos)

lemma skipCurChar_at: "skipCurChar l = lexer_at (source l) (curPos l + 1)"
  by (simp add: skipCurChar_def lexer_at_def Let_def)

lemma skipCurChar_inv: "-1 \<le> curPos l \<Longrightarrow> lexer_inv (skipCurChar l)"
  by (simp add: lexer_inv_def skipCurChar_at lexer_at_def)

lemma Lexer_init_inv: "lexer_inv (Lexer_init src)"
  unfolding Lexer_init_def by (rule skipCurChar_inv) simp

lemma peek_snd: "snd (peek l) = l"
  by (simp add: peek_def)

lemma peek_pair: "(fst (peek l), l) = peek l"
  by (simp add: peek_def)


lemma skipWhitespace_advanced: "advanced l (skipWhitespace l)"
proof (induction l rule: skipWhitespace.induct)
  case (1 l)
  show ?case
  proof (cases "curChar l \<in> Lexer_WHITESPACE")
    case True
    with 1 have "advanced (skipCurChar l) (skipWhitespace (skipCurChar l))" by simp
    with skipCurChar_advanced have "advanced l (skipWhitespace (skipCurChar l))"
      by (rule advanced_trans)
    with True show ?thesis by (simp add: skipWhitespace.simps[of l])
  next
    case False
    then show ?thesis by (simp add: advanced_refl skipWhitespace.simps[of l])
  qed
qed

lemma skipWhitespace_inv: "lexer_inv l \<Longrightarrow> lexer_inv (skipWhitespace l)"
proof (induction l rule: skipWhitespace.induct)
  case (1 l)
  show ?case
  proof (cases "curChar l \<in> Lexer_WHITESPACE")
    case True
    from 1(2) have "lexer_inv (skipCurChar l)"
      by (intro skipCurChar_inv) (simp add: lexer_inv_def)
    with 1(1) True show ?thesis by (simp add: skipWhitespace.simps[of l])
  next
    case False
    with 1(2) show ?thesis by (simp add: skipWhitespace.simps[of l])
  qed
qed

lemma skipComment_loop_advanced: "skipComment_loop l = Some l' \<Longrightarrow> advanced l l'"
proof (induction rule: skipComment_loop.raw_induct[rotated 1, consumes 1])
  case (1 loop l l')
  show ?case
  proof (cases "curChar l \<noteq> Lexer_NEWLINE")
    case True
    with 1 have "advanced (skipCurChar l) l'" by simp
    with skipCurChar_advanced show ?thesis by (rule advanced_trans)
  next
    case False
    with 1 show ?thesis by (simp add: advanced_refl)
  qed
qed

lemma skipComment_loop_inv: "skipComment_loop l = Some l' \<Longrightarrow> lexer_inv l \<Longrightarrow> lexer_inv l'"
proof (induction rule: skipComment_loop.raw_induct[rotated 1, consumes 1])
  case (1 loop l l')
  show ?case
  proof (cases "curChar l \<noteq> Lexer_NEWLINE")
    case True
    from 1(3) have "lexer_inv (skipCurChar l)"
      by (intro skipCurChar_inv) (simp add: lexer_inv_def)
    with 1 True show ?thesis by simp
  next
    case False
    with 1 show ?thesis by simp
  qed
qed

lemma skipComment_advanced: "skipComment l = Some l' \<Longrightarrow> advanced l l'"
  by (auto simp: skipComment_def advanced_refl skipComment_loop_advanced split: if_splits)

lemma skipComment_inv: "skipComment l = Some l' \<Longrightarrow> lexer_inv l \<Longrightarrow> lexer_inv l'"
  by (auto simp: skipComment_def skipComment_loop_inv split: if_splits)

lemma string_loop_advanced_aux:
  "string_loop l = Some r \<Longrightarrow> (\<forall>l'. r = Inr l' \<longrightarrow> advanced l l')"
proof (induction rule: string_loop.raw_induct[rotated 1, consumes 1])
  case (1 loop l r)
  show ?case
  proof (cases "curChar l \<noteq> Lexer_DOUBLEQUOTE")
    case True
    with 1 have "\<forall>l'. r = Inr l' \<longrightarrow> advanced (skipCurChar l) l'"
      by (auto split: if_splits)
    with skipCurChar_advanced show ?thesis by (blast intro: advanced_trans)
  next
    case False
    with 1 show ?thesis by (auto simp: advanced_refl)
  qed
qed

lemma string_loop_advanced: "string_loop l = Some (Inr l') \<Longrightarrow> advanced l l'"
  using string_loop_advanced_aux by blast

lemma digits_loop_advanced: "advanced l (digits_loop l)"
proof (induction l rule: digits_loop.induct)
  case (1 l)
  show ?case
  proof (cases "isdigit (fst (peek l))")
    case True
    with 1[OF refl, of "fst (peek l)" "snd (peek l)"]
    have "advanced (skipCurChar l) (digits_loop (skipCurChar l))"
      by (simp add: peek_snd peek_pair)
    with skipCurChar_advanced have "advanced l (digits_loop (skipCurChar l))"
      by (rule advanced_trans)
    with True show ?thesis by (simp add: digits_loop.simps[of l] peek_snd split_beta)
  next
    case False
    then show ?thesis by (simp add: digits_loop.simps[of l] advanced_refl peek_snd split_beta)
  qed
qed

lemma alnum_loop_advanced: "advanced l (alnum_loop l)"
proof (induction l rule: alnum_loop.induct)
  case (1 l)
  show ?case
  proof (cases "isalnum (fst (peek l))")
    case True
    with 1[OF refl, of "fst (peek l)" "snd (peek l)"]
    have "advanced (skipCurChar l) (alnum_loop (skipCurChar l))"
      by (simp add: peek_snd peek_pair)
    with skipCurChar_advanced have "advanced l (alnum_loop (skipCurChar l))"
      by (rule advanced_trans)
    with True show ?thesis by (simp add: alnum_loop.simps[of l] peek_snd split_beta)
  next
    case False
    then show ?thesis by (simp add: alnum_loop.simps[of l] advanced_refl peek_snd split_beta)
  qed
qed

lemma andThen_Returns_iff:
  "(andThen r f = Returns y) = (\<exists>x. r = Returns x \<and> f x = Returns y)"
  by (cases r) auto

lemma andThen_Exits_iff:
  "(andThen r f = Exits e) = (r = Exits e \<or> (\<exists>x. r = Returns x \<and> f x = Exits e))"
  by (cases r) auto

lemma andThen_NoReturn_iff:
  "(andThen r f = NoReturn) = (r = NoReturn \<or> (\<exists>x. r = Returns x \<and> f x = NoReturn))"
  by (cases r) auto

lemma getToken_last_step:
  assumes "getToken l = Returns (t, l')"
  shows "\<exists>l3. advanced l l3 \<and> l' = skipCurChar l3"
proof -
  from assms obtain l2 where l2: "skipComment (skipWhitespace l) = Some l2"
    by (auto simp: getToken_def split: option.splits)
  have a2: "advanced l l2"
    using skipWhitespace_advanced skipComment_advanced[OF l2] by (rule advanced_trans)
  have facts: "advanced l2 l2" "advanced l2 (skipCurChar l2)" "advanced l2 (digits_loop l2)"
    "advanced l2 (alnum_loop l2)"
    "advanced l2 (digits_loop (skipCurChar (digits_loop l2)))"
    "\<And>x. string_loop (skipCurChar l2) = Some (Inr x) \<Longrightarrow> advanced l2 x"
    by (blast intro: advanced_refl skipCurChar_advanced digits_loop_advanced alnum_loop_advanced
          string_loop_advanced advanced_trans)+
  have stepI: "\<And>x. advanced l2 x \<Longrightarrow> \<exists>l3. advanced l2 l3 \<and> skipCurChar x = skipCurChar l3"
    by blast
  from assms l2 have "\<exists>l3. advanced l2 l3 \<and> l' = skipCurChar l3"
    unfolding getToken_def
    by (auto simp: andThen_Returns_iff Let_def peek_def facts intro!: stepI
             split: if_splits option.splits sum.splits prod.splits)
  with a2 show ?thesis by (blast intro: advanced_trans)
qed

lemma getToken_advanced:
  "getToken l = Returns (t, l') \<Longrightarrow> source l' = source l \<and> curPos l < curPos l'"
  by (drule getToken_last_step) (auto simp: advanced_def skipCurChar_source skipCurChar_curPos)

lemma getToken_inv: "getToken l = Returns (t, l') \<Longrightarrow> -1 \<le> curPos l \<Longrightarrow> lexer_inv l'"
  by (drule getToken_last_step) (auto simp: advanced_def intro!: skipCurChar_inv)

lemma lexer_inv_curChar:
  "lexer_inv l \<Longrightarrow>
     curChar l = (if int (length (source l)) \<le> curPos l then Lexer_EOF
                  else [source l ! nat (curPos l)])"
  unfolding lexer_inv_def
  by (cases l) (auto simp: lexer_at_def getitem_def)

lemma skipWhitespace_id: "curChar l \<notin> Lexer_WHITESPACE \<Longrightarrow> skipWhitespace l = l"
  by (simp add: skipWhitespace.simps[of l])

lemma getToken_at_end:
  assumes "lexer_inv l" and "int (length (source l)) \<le> curPos l"
  shows "getToken l = Returns (\<lparr>text' = Lexer_EOF, kind = EOF\<rparr>,
                               lexer_at (source l) (curPos l + 1))"
proof -
  from assms have c: "curChar l = Lexer_EOF" by (simp add: lexer_inv_curChar)
  then have "skipWhitespace l = l"
    by (intro skipWhitespace_id) (simp add: Lexer_EOF_def Lexer_WHITESPACE_def)
  moreover from c have "skipComment l = Some l"
    by (simp add: skipComment_def Lexer_EOF_def Lexer_HASHMARK_def)
  ultimately show ?thesis using c
    by (simp add: getToken_def Lexer_EOF_def Lexer_NEWLINE_def skipCurChar_at)
qed

lemma getTokens_at_end:
  "lexer_inv l \<Longrightarrow> int (length (source l)) \<le> curPos l \<Longrightarrow>
     getTokens n l = Returns (replicate n \<lparr>text' = Lexer_EOF, kind = EOF\<rparr>,
                              lexer_at (source l) (curPos l + int n))"
proof (induction n arbitrary: l)
  case 0
  then show ?case by (simp add: lexer_inv_def)
next
  case (Suc n)
  let ?l1 = "lexer_at (source l) (curPos l + 1)"
  from Suc.prems have g: "getToken l = Returns (\<lparr>text' = Lexer_EOF, kind = EOF\<rparr>, ?l1)"
    by (rule getToken_at_end)
  from Suc.prems have "lexer_inv ?l1" "int (length (source ?l1)) \<le> curPos ?l1"
    by (simp_all add: lexer_inv_def lexer_at_def)
  from Suc.IH[OF this] g show ?case
    by (simp add: lexer_at_def add.assoc)
qed

lemma keyword_not_EOF: "mapTextToKeywordType s \<noteq> Some EOF"
  by (simp add: mapTextToKeywordType_def TokenType_members_def)

lemma getToken_EOF_position:
  assumes inv: "lexer_inv l" and nul: "CHR 0x00 \<notin> set (source l)"
    and g: "getToken l = Returns (t, l')" and k: "kind t = EOF"
  shows "int (length (source l')) \<le> curPos l'"
proof -
  from g obtain l2 where l2: "skipComment (skipWhitespace l) = Some l2"
    by (auto simp: getToken_def split: option.splits)
  have inv2: "lexer_inv l2"
    using skipComment_inv[OF l2 skipWhitespace_inv[OF inv]] .
  have "advanced l l2"
    using skipWhitespace_advanced skipComment_advanced[OF l2] by (rule advanced_trans)
  then have src: "source l2 = source l" by (simp add: advanced_def)
  from g l2 k have "curChar l2 = Lexer_EOF \<and> l' = skipCurChar l2"
    unfolding getToken_def
    by (auto simp: andThen_Returns_iff Let_def keyword_not_EOF
             split: if_splits option.splits sum.splits prod.splits)
  then have c: "curChar l2 = [CHR 0x00]" and l': "l' = skipCurChar l2"
    by (simp_all add: Lexer_EOF_def)
  have "int (length (source l2)) \<le> curPos l2"
  proof (rule ccontr)
    assume "\<not> int (length (source l2)) \<le> curPos l2"
    moreover from inv2 have "0 \<le> curPos l2" by (simp add: lexer_inv_def)
    ultimately have "nat (curPos l2) < length (source l2)"
      and "curChar l2 = [source l2 ! nat (curPos l2)]"
      using lexer_inv_curChar[OF inv2] by auto
    with c have "CHR 0x00 \<in> set (source l2)" by (metis list.inject nth_mem)
    with nul src show False by simp
  qed
  with l' show ?thesis by (simp add: skipCurChar_source skipCurChar_curPos)
qed

lemma getTokens_EOF_absorbing:
  "lexer_inv l \<Longrightarrow> CHR 0x00 \<notin> set (source l) \<Longrightarrow> getTokens n l = Returns (ts, l') \<Longrightarrow>
     i < j \<Longrightarrow> j < n \<Longrightarrow> kind (ts ! i) = EOF \<Longrightarrow> kind (ts ! j) = EOF"
proof (induction n arbitrary: l ts i j)
  case 0
  then show ?case by simp
next
  case (Suc n)
  from Suc.prems(3) obtain t l1 ts' where g: "getToken l = Returns (t, l1)"
    and gs: "getTokens n l1 = Returns (ts', l')" and ts: "ts = t # ts'"
    by (auto simp: andThen_Returns_iff)
  from Suc.prems(1) have "-1 \<le> curPos l" by (simp add: lexer_inv_def)
  with g have inv1: "lexer_inv l1" by (rule getToken_inv)
  from g have src1: "source l1 = source l" by (simp add: getToken_advanced)
  from Suc.prems(4) obtain j' where j: "j = Suc j'" by (cases j) auto
  show ?case
  proof (cases i)
    case 0
    with Suc.prems(6) ts have "kind t = EOF" by simp
    with Suc.prems(1,2) g have "int (length (source l1)) \<le> curPos l1"
      by (intro getToken_EOF_position[of l t l1])
    from getTokens_at_end[OF inv1 this, of n] gs
    have "ts' = replicate n \<lparr>text' = Lexer_EOF, kind = EOF\<rparr>" by simp
    with ts j Suc.prems(5) show ?thesis by simp
  next
    case (Suc i')
    with Suc.prems ts j src1 Suc.IH[OF inv1 _ gs, of i' j'] show ?thesis by simp
  qed
qed

text \<open>
  C8. \<^verbatim>\<open>peek\<close> returns the character at the position after the current one, or the
  sentinel when that position is past the buffer, and the lexer it leaves is the lexer it
  was called on (same position, same current character). The operations that return a
  lexer never move the position back: \<^verbatim>\<open>skipCurChar\<close> moves it by one,
  \<^verbatim>\<open>skipWhitespace\<close> and \<^verbatim>\<open>skipComment\<close> leave it or move it forward, and \<^verbatim>\<open>getToken\<close>
  moves it forward.
\<close>

theorem peek_pure_position_monotone:
  "(- 1 \<le> curPos l \<longrightarrow>
      fst (peek l) = (if int (length (source l)) \<le> curPos l + 1 then Lexer_EOF
                      else [source l ! nat (curPos l + 1)]))
   \<and> snd (peek l) = l
   \<and> curPos (snd (peek l)) = curPos l \<and> curChar (snd (peek l)) = curChar l
   \<and> curPos (skipCurChar l) = curPos l + 1
   \<and> curPos l \<le> curPos (skipWhitespace l)
   \<and> (skipComment l = Some l1 \<longrightarrow> curPos l \<le> curPos l1)
   \<and> (getToken l = Returns (t, l2) \<longrightarrow> curPos l < curPos l2)"
proof -
  have "- 1 \<le> curPos l \<longrightarrow>
      fst (peek l) = (if int (length (source l)) \<le> curPos l + 1 then Lexer_EOF
                      else [source l ! nat (curPos l + 1)])"
    by (simp add: peek_def getitem_def)
  moreover have "curPos l \<le> curPos (skipWhitespace l)"
    using skipWhitespace_advanced[of l] by (simp add: advanced_def)
  moreover have "skipComment l = Some l1 \<longrightarrow> curPos l \<le> curPos l1"
    using skipComment_advanced[of l l1] by (simp add: advanced_def)
  moreover have "getToken l = Returns (t, l2) \<longrightarrow> curPos l < curPos l2"
    using getToken_advanced[of l t l2] by simp
  ultimately show ?thesis
    by (simp add: peek_snd skipCurChar_curPos)
qed

theorem peek_pure_position_monotone_witness:
  "- 1 \<le> curPos (Lexer_init ''x == 1'')
   \<and> skipComment (Lexer_init ''x == 1'') = Some (Lexer_init ''x == 1'')
   \<and> getToken (Lexer_init ''x == 1'')
       = Returns (\<lparr>text' = ''x'', kind = IDENT\<rparr>, lexer_at (''x == 1'' @ Lexer_NEWLINE) 1)
   \<and> fst (peek (Lexer_init ''x == 1'')) = '' ''
   \<and> curPos (Lexer_init ''x == 1'') < curPos (lexer_at (''x == 1'' @ Lexer_NEWLINE) 1)"
proof -
  have h1: "- 1 \<le> curPos (Lexer_init ''x == 1'')" by code_simp
  have h2: "skipComment (Lexer_init ''x == 1'') = Some (Lexer_init ''x == 1'')" by code_simp
  have h3: "getToken (Lexer_init ''x == 1'')
       = Returns (\<lparr>text' = ''x'', kind = IDENT\<rparr>, lexer_at (''x == 1'' @ Lexer_NEWLINE) 1)"
    by code_simp
  have h4: "fst (peek (Lexer_init ''x == 1'')) = '' ''" by code_simp
  from peek_pure_position_monotone[of "Lexer_init ''x == 1''" "Lexer_init ''x == 1''"
      "\<lparr>text' = ''x'', kind = IDENT\<rparr>" "lexer_at (''x == 1'' @ Lexer_NEWLINE) 1"] h1 h2 h3 h4
  show ?thesis by simp
qed

section \<open>The lexer: end of input\<close>

text \<open>
  C9, as amended. Once the position is at or past the end of the buffer, the current
  character is the sentinel and each of the next \<open>n\<close> calls of \<^verbatim>\<open>getToken\<close> returns a token
  of kind \<open>EOF\<close>, for every \<open>n\<close>. When the source contains no NUL character, a token of kind
  \<open>EOF\<close> is only returned there, so no token of another kind follows a token of kind \<open>EOF\<close>.
\<close>

theorem eof_absorbing:
  "lexer_inv l \<Longrightarrow>
     (int (length (source l)) \<le> curPos l \<longrightarrow>
        curChar l = Lexer_EOF \<and>
        getTokens n l = Returns (replicate n \<lparr>text' = Lexer_EOF, kind = EOF\<rparr>,
                                 lexer_at (source l) (curPos l + int n)))
     \<and> (CHR 0x00 \<notin> set (source l) \<longrightarrow> getTokens n l = Returns (ts, l') \<longrightarrow>
          i < j \<longrightarrow> j < n \<longrightarrow> kind (ts ! i) = EOF \<longrightarrow> kind (ts ! j) = EOF)"
  using getTokens_at_end[of l n] getTokens_EOF_absorbing[of l n ts l' i j]
  by (simp add: lexer_inv_curChar)

theorem eof_absorbing_witness:
  "lexer_inv (lexer_at ''+ '' 1)
   \<and> CHR 0x00 \<notin> set (source (lexer_at ''+ '' 1))
   \<and> getTokens 3 (lexer_at ''+ '' 1)
       = Returns ([\<lparr>text' = Lexer_EOF, kind = EOF\<rparr>, \<lparr>text' = Lexer_EOF, kind = EOF\<rparr>,
                   \<lparr>text' = Lexer_EOF, kind = EOF\<rparr>], lexer_at ''+ '' 5)
   \<and> (0::nat) < 2 \<and> (2::nat) < 3
   \<and> kind ([\<lparr>text' = Lexer_EOF, kind = EOF\<rparr>, \<lparr>text' = Lexer_EOF, kind = EOF\<rparr>,
             \<lparr>text' = Lexer_EOF, kind = EOF\<rparr>] ! 2) = EOF
   \<and> getTokens 2 (lexer_at ''+ '' 2)
       = Returns (replicate 2 \<lparr>text' = Lexer_EOF, kind = EOF\<rparr>, lexer_at ''+ '' (2 + int 2))"
proof -
  have h1: "lexer_inv (lexer_at ''+ '' 1)" "lexer_inv (lexer_at ''+ '' 2)"
    by (simp_all add: lexer_inv_def lexer_at_def)
  have h2: "CHR 0x00 \<notin> set (source (lexer_at ''+ '' 1))" by (simp add: lexer_at_def)
  have h3: "getTokens 3 (lexer_at ''+ '' 1)
       = Returns ([\<lparr>text' = Lexer_EOF, kind = EOF\<rparr>, \<lparr>text' = Lexer_EOF, kind = EOF\<rparr>,
                   \<lparr>text' = Lexer_EOF, kind = EOF\<rparr>], lexer_at ''+ '' 5)"
    by code_simp
  have h4: "int (length (source (lexer_at ''+ '' 2))) \<le> curPos (lexer_at ''+ '' 2)"
    by (simp add: lexer_at_def)
  from eof_absorbing[OF h1(1), of 3 _ "lexer_at ''+ '' 5" 0 2] h2 h3
  have a: "kind ([\<lparr>text' = Lexer_EOF, kind = EOF\<rparr>, \<lparr>text' = Lexer_EOF, kind = EOF\<rparr>,
             \<lparr>text' = Lexer_EOF, kind = EOF\<rparr>] ! 2) = EOF"
    by simp
  from eof_absorbing[OF h1(2), of 2] h4
  have b: "getTokens 2 (lexer_at ''+ '' 2)
       = Returns (replicate 2 \<lparr>text' = Lexer_EOF, kind = EOF\<rparr>, lexer_at ''+ '' (2 + int 2))"
    by (simp add: lexer_at_def)
  from h1 h2 h3 a b show ?thesis by simp
qed

text \<open>
  The source \<^verbatim>\<open>"\0+"\<close>: the first token is of kind \<open>EOF\<close>, for the NUL at position 0, and
  the second is the operator \<^verbatim>\<open>+\<close>.
\<close>

theorem eof_not_absorbing_with_nul:
  "getTokens 2 (Lexer_init [CHR 0x00, CHR ''+'']) =
    Returns ([\<lparr>text' = [CHR 0x00], kind = EOF\<rparr>, \<lparr>text' = ''+'', kind = PLUS\<rparr>],
             \<lparr>source = [CHR 0x00, CHR ''+'', CHR 0x0A], curChar = [CHR 0x0A], curPos = 2\<rparr>)"
  by code_simp


section \<open>The lexer: numbers\<close>






lemma isdigit_singleton: "isdigit [d] = digit_char d"
  by (simp add: isdigit_def)





section \<open>The parser: more fuel, same result\<close>

lemma refines_refl: "refines f f"
  by (simp add: refines_def)

lemma refinesD: "refines f g \<Longrightarrow> f s \<noteq> NoReturn \<Longrightarrow> g s = f s"
  by (simp add: refines_def)

lemma refines_ext: "(\<And>s. f s = f' s) \<Longrightarrow> (\<And>s. g s = g' s) \<Longrightarrow> refines f' g' \<Longrightarrow> refines f g"
  by (simp add: refines_def)

lemma andThen_refines:
  assumes "andThen r f \<noteq> NoReturn" and "refines f g"
  shows "andThen r g = andThen r f"
  using assms by (cases r) (auto dest: refinesD)

lemma refines_seq_Nil: "refines (seq []) (seq [])"
  by (rule refines_refl)

lemma refines_seq_Cons:
  assumes "refines f g" and "refines (seq fs) (seq gs)"
  shows "refines (seq (f # fs)) (seq (g # gs))"
  unfolding refines_def
proof (intro allI impI)
  fix s assume nr: "seq (f # fs) s \<noteq> NoReturn"
  then have "f s \<noteq> NoReturn" by (cases "f s") auto
  with assms(1) have "g s = f s" by (rule refinesD)
  with nr assms(2) show "seq (g # gs) s = seq (f # fs) s"
    by (simp add: andThen_refines)
qed

lemma refines_if:
  assumes "refines f g" and "refines f' g'"
  shows "refines (\<lambda>s. if c s then f s else f' s) (\<lambda>s. if c s then g s else g' s)"
  using assms by (simp add: refines_def)

lemma refines_whileP:
  assumes "refines b b'" and "n \<le> m"
  shows "refines (whileP n c b) (whileP m c b')"
  unfolding refines_def
proof (intro allI impI)
  fix s
  show "whileP n c b s \<noteq> NoReturn \<Longrightarrow> whileP m c b' s = whileP n c b s"
    using assms(2)
  proof (induction n arbitrary: m s)
    case 0
    then show ?case by (cases m) (auto split: if_splits)
  next
    case (Suc n)
    then obtain m' where m: "m = Suc m'" and le: "n \<le> m'" by (cases m) auto
    show ?case
    proof (cases "c s")
      case True
      with Suc.prems have nr: "andThen (b s) (whileP n c b) \<noteq> NoReturn" by simp
      then have "b s \<noteq> NoReturn" by (cases "b s") auto
      with assms(1) have bs: "b' s = b s" by (rule refinesD)
      show ?thesis
      proof (cases "b s")
        case (Returns s')
        with nr have "whileP n c b s' \<noteq> NoReturn" by simp
        from Suc.IH[OF this le] Returns True bs m show ?thesis by simp
      next
        case (Exits e)
        with True bs m show ?thesis by simp
      next
        case NoReturn
        with \<open>b s \<noteq> NoReturn\<close> show ?thesis by simp
      qed
    next
      case False
      with m show ?thesis by simp
    qed
  qed
qed

lemma term'_refines: "n \<le> m \<Longrightarrow> refines (term' n) (term' m)"
  by (rule refines_ext[OF term'_def term'_def])
     (intro refines_seq_Cons refines_seq_Nil refines_whileP refines_refl)

lemma expression_refines: "n \<le> m \<Longrightarrow> refines (expression n) (expression m)"
  by (rule refines_ext[OF expression_def expression_def])
     (intro refines_seq_Cons refines_seq_Nil refines_whileP refines_refl term'_refines)

lemma comparison_refines: "n \<le> m \<Longrightarrow> refines (comparison n) (comparison m)"
  by (rule refines_ext[OF comparison_def comparison_def])
     (intro refines_seq_Cons refines_seq_Nil refines_whileP refines_refl refines_if
        expression_refines)

lemma nl_refines: "n \<le> m \<Longrightarrow> refines (nl n) (nl m)"
  by (rule refines_ext[OF nl_def nl_def])
     (intro refines_seq_Cons refines_seq_Nil refines_whileP refines_refl)

lemma statement_refines: "n \<le> m \<Longrightarrow> refines (statement n) (statement m)"
proof (induction n arbitrary: m)
  case 0
  show ?case by (simp add: refines_def)
next
  case (Suc n)
  then obtain m' where m: "m = Suc m'" and le: "n \<le> m'" by (cases m) auto
  note IH = Suc.IH[OF le]
  show ?case
    unfolding m
    by (rule refines_ext[OF statement.simps(2) statement.simps(2)])
       (intro refines_seq_Cons refines_seq_Nil refines_if refines_whileP
          expression_refines[OF le] comparison_refines[OF le] nl_refines[OF le] IH le
          refines_refl)
qed

section \<open>The parser: the program and its labels\<close>

lemma seq_append: "seq (fs @ gs) s = andThen (seq fs s) (seq gs)"
proof (induction fs arbitrary: s)
  case Nil
  show ?case by simp
next
  case (Cons f fs)
  show ?case by (cases "f s") (simp_all add: Cons.IH)
qed

lemma program_parsed:
  "program ord n p =
     andThen (parsed n p)
       (seq [(\<lambda>p. labels_loop (ord (labelsGotoed p)) p),
             emitter_emitLine (\<lambda>p. ''return 0;''),
             emitter_emitLine (\<lambda>p. ''}'')])"
  unfolding program_def parsed_def
  using seq_append[of "[emitter_headerLine (\<lambda>p. ''#include <stdio.h>''),
          emitter_headerLine (\<lambda>p. ''int main(void){''),
          whileP n (curTokeHasType NEWLINE) (skipCurToken None),
          whileP n (\<lambda>p. \<not> curTokeHasType EOF p) (statement n)]"
          "[(\<lambda>p. labels_loop (ord (labelsGotoed p)) p),
             emitter_emitLine (\<lambda>p. ''return 0;''),
             emitter_emitLine (\<lambda>p. ''}'')]" p]
  by simp

lemma parsed_refines: "n \<le> m \<Longrightarrow> refines (parsed n) (parsed m)"
  by (rule refines_ext[OF parsed_def parsed_def])
     (intro refines_seq_Cons refines_seq_Nil refines_whileP refines_refl statement_refines)

lemma labels_loop_Returns:
  "(labels_loop ls p = Returns q) = (q = p \<and> (\<forall>l\<in>set ls. l |\<in>| labelsDeclared p))"
  by (induction ls) auto

lemma labels_loop_Exits:
  "labels_loop ls p = Exits e \<Longrightarrow> \<exists>l\<in>set ls. l |\<notin>| labelsDeclared p \<and> e = UndeclaredLabel l"
  by (induction ls) (auto split: if_splits)

lemma labels_loop_not_NoReturn: "labels_loop ls p \<noteq> NoReturn"
  by (induction ls) auto

lemma iteration_order_set: "iteration_order ord \<Longrightarrow> set (ord S) = fset S"
  unfolding iteration_order_def by (metis fset_of_list.rep_eq)

lemma program_cases:
  assumes "iteration_order ord"
  shows "program ord n p =
     (case parsed n p of
        Returns p' \<Rightarrow>
          if labelsGotoed p' |\<subseteq>| labelsDeclared p' then Returns (finish p')
          else Exits (UndeclaredLabel
                 (hd (filter (\<lambda>l. l |\<notin>| labelsDeclared p') (ord (labelsGotoed p')))))
      | Exits e \<Rightarrow> Exits e
      | NoReturn \<Rightarrow> NoReturn)"
proof (cases "parsed n p")
  case (Returns p')
  have loop: "labels_loop ls p' =
      (if \<forall>l\<in>set ls. l |\<in>| labelsDeclared p' then Returns p'
       else Exits (UndeclaredLabel (hd (filter (\<lambda>l. l |\<notin>| labelsDeclared p') ls))))" for ls
    by (induction ls) auto
  have sub: "(\<forall>l\<in>set (ord (labelsGotoed p')). l |\<in>| labelsDeclared p')
               = (labelsGotoed p' |\<subseteq>| labelsDeclared p')"
    by (auto simp: iteration_order_set[OF assms])
  show ?thesis
    by (simp add: program_parsed Returns loop sub emitter_emitLine_def finish_def)
next
  case (Exits e)
  then show ?thesis by (simp add: program_parsed)
next
  case NoReturn
  then show ?thesis by (simp add: program_parsed)
qed

lemma undeclared_label_in:
  assumes "iteration_order ord" and "\<not> labelsGotoed p' |\<subseteq>| labelsDeclared p'"
  defines "l \<equiv> hd (filter (\<lambda>l. l |\<notin>| labelsDeclared p') (ord (labelsGotoed p')))"
  shows "l |\<in>| labelsGotoed p' \<and> l |\<notin>| labelsDeclared p'"
proof -
  from assms(2) obtain x where "x |\<in>| labelsGotoed p'" "x |\<notin>| labelsDeclared p'" by auto
  then have "x \<in> set (filter (\<lambda>l. l |\<notin>| labelsDeclared p') (ord (labelsGotoed p')))"
    by (simp add: iteration_order_set[OF assms(1)])
  then have "filter (\<lambda>l. l |\<notin>| labelsDeclared p') (ord (labelsGotoed p')) \<noteq> []"
    by (metis empty_iff list.set(1))
  then have "l \<in> set (filter (\<lambda>l. l |\<notin>| labelsDeclared p') (ord (labelsGotoed p')))"
    unfolding l_def by (rule hd_in_set)
  then show ?thesis by (simp add: iteration_order_set[OF assms(1)])
qed

lemma program_fuel_order:
  assumes "iteration_order ord" and "iteration_order ord'" and "n \<le> m"
    and "program ord n p = Returns q"
  shows "program ord' m p = Returns q"
proof -
  from assms(4) obtain p' where p': "parsed n p = Returns p'"
    and sub: "labelsGotoed p' |\<subseteq>| labelsDeclared p'" and q: "q = finish p'"
    by (auto simp: program_cases[OF assms(1)] split: outcome.splits if_splits)
  from refinesD[OF parsed_refines[OF assms(3)], of p] p' have "parsed m p = Returns p'" by simp
  with sub q show ?thesis by (simp add: program_cases[OF assms(2)])
qed

lemma program_deterministic:
  assumes "iteration_order ord1" and "iteration_order ord2"
    and "program ord1 n1 p = Returns q1" and "program ord2 n2 p = Returns q2"
  shows "q1 = q2"
proof -
  have "program ord1 (max n1 n2) p = Returns q1"
    using assms(1) assms(1) _ assms(3) by (rule program_fuel_order) simp
  moreover have "program ord1 (max n1 n2) p = Returns q2"
    using assms(2) assms(1) _ assms(4) by (rule program_fuel_order) simp
  ultimately show ?thesis by simp
qed

section \<open>The parser: declarations in the header\<close>

lemma preservesD: "preserves I f \<Longrightarrow> I s \<Longrightarrow> f s = Returns s' \<Longrightarrow> I s'"
  unfolding preserves_def by blast

lemma preserves_ext: "(\<And>s. f s = g s) \<Longrightarrow> preserves I g \<Longrightarrow> preserves I f"
  unfolding preserves_def by metis

lemma preserves_seq_Nil: "preserves I (seq [])"
  unfolding preserves_def by simp

lemma preserves_seq_Cons:
  assumes "preserves I f" and "preserves I (seq fs)"
  shows "preserves I (seq (f # fs))"
  unfolding preserves_def
proof (intro allI impI)
  fix s s' assume I: "I s" and r: "seq (f # fs) s = Returns s'"
  from r obtain s1 where f: "f s = Returns s1" and fs: "seq fs s1 = Returns s'"
    by (auto simp: andThen_Returns_iff)
  from assms(1) I f have "I s1" by (rule preservesD)
  with assms(2) show "I s'" using fs by (rule preservesD)
qed

lemma preserves_if:
  "preserves I f \<Longrightarrow> preserves I g \<Longrightarrow> preserves I (\<lambda>s. if c s then f s else g s)"
  unfolding preserves_def by metis

lemma preserves_Exits: "preserves I (\<lambda>s. Exits (e s))"
  unfolding preserves_def by simp

lemma preserves_Returns: "preserves I Returns"
  unfolding preserves_def by simp

lemma preserves_whileP:
  assumes "preserves I b"
  shows "preserves I (whileP n c b)"
  unfolding preserves_def
proof (intro allI impI)
  fix s s'
  show "I s \<Longrightarrow> whileP n c b s = Returns s' \<Longrightarrow> I s'"
  proof (induction n arbitrary: s)
    case 0
    then show ?case by (auto split: if_splits)
  next
    case (Suc n)
    show ?case
    proof (cases "c s")
      case True
      with Suc.prems(2) have "andThen (b s) (whileP n c b) = Returns s'" by simp
      then obtain s1 where "b s = Returns s1" "whileP n c b s1 = Returns s'"
        unfolding andThen_Returns_iff by blast
      from preservesD[OF assms Suc.prems(1) this(1)] have "I s1" .
      from Suc.IH[OF this \<open>whileP n c b s1 = Returns s'\<close>] show ?thesis .
    next
      case False
      with Suc.prems show ?thesis by simp
    qed
  qed
qed

lemma declLine_inj: "(declLine x = declLine y) = (x = y)"
  by (simp add: declLine_def)

lemma declLine_not_prologue:
  "declLine x \<noteq> ''#include <stdio.h>''" "declLine x \<noteq> ''int main(void){''"
  "''#include <stdio.h>'' \<noteq> declLine x" "''int main(void){'' \<noteq> declLine x"
  by (simp_all add: declLine_def)

lemma decl_inv_frame:
  "decl_inv p \<Longrightarrow> header (emitter p') = header (emitter p) \<Longrightarrow>
     symbolsDeclared p' = symbolsDeclared p \<Longrightarrow> decl_inv p'"
  by (simp add: decl_inv_def)

lemma skipCurToken_frame:
  "skipCurToken r p = Returns p' \<Longrightarrow>
     emitter p' = emitter p \<and> symbolsDeclared p' = symbolsDeclared p
     \<and> labelsDeclared p' = labelsDeclared p \<and> labelsGotoed p' = labelsGotoed p"
  unfolding skipCurToken_def
  by (cases "r \<noteq> None \<and> \<not> curTokeHasType (the r) p")
     (auto simp: andThen_Returns_iff)

lemma skipCurToken_decl: "preserves decl_inv (skipCurToken r)"
  unfolding preserves_def
proof (intro allI impI)
  fix s s' assume "decl_inv s" "skipCurToken r s = Returns s'"
  from this(1) skipCurToken_frame[OF this(2)] show "decl_inv s'"
    by (intro decl_inv_frame[of s s']) simp_all
qed

lemma emit_decl: "preserves decl_inv (emitter_emit t)"
  unfolding preserves_def emitter_emit_def
  by (auto intro: decl_inv_frame simp: emit_def)

lemma emitLine_decl: "preserves decl_inv (emitter_emitLine t)"
  unfolding preserves_def emitter_emitLine_def
  by (auto intro: decl_inv_frame simp: emitLine_def)

lemma prologue_decl:
  "preserves decl_inv (emitter_headerLine (\<lambda>p. ''#include <stdio.h>''))"
  "preserves decl_inv (emitter_headerLine (\<lambda>p. ''int main(void){''))"
  unfolding preserves_def emitter_headerLine_def headerLine_def decl_inv_def
  by (simp_all add: declLine_not_prologue)

lemma declare_decl_aux:
  "preserves decl_inv
     (\<lambda>p. if text' (curToken p) |\<notin>| symbolsDeclared p then
             seq [(\<lambda>p. Returns (p\<lparr>symbolsDeclared :=
                      finsert (text' (curToken p)) (symbolsDeclared p)\<rparr>)),
                  emitter_headerLine (\<lambda>p. declLine (text' (curToken p)))] p
           else Returns p)"
  unfolding preserves_def decl_inv_def emitter_headerLine_def headerLine_def
  by (auto simp: declLine_inj)

lemmas declare_decl = declare_decl_aux[unfolded declLine_def]

lemma labels_decl:
  "preserves decl_inv (\<lambda>p. Returns (p\<lparr>labelsDeclared := f p\<rparr>))"
  "preserves decl_inv (\<lambda>p. Returns (p\<lparr>labelsGotoed := g p\<rparr>))"
  unfolding preserves_def by (auto intro: decl_inv_frame)

lemma primary_decl: "preserves decl_inv primary"
  by (rule preserves_ext[OF primary_def])
     (intro preserves_if preserves_seq_Cons preserves_seq_Nil preserves_Exits
        skipCurToken_decl emit_decl)

lemma unary_decl: "preserves decl_inv unary"
  by (rule preserves_ext[OF unary_def])
     (intro preserves_if preserves_seq_Cons preserves_seq_Nil preserves_Returns
        skipCurToken_decl emit_decl primary_decl)

lemma term'_decl: "preserves decl_inv (term' n)"
  by (rule preserves_ext[OF term'_def])
     (intro preserves_whileP preserves_seq_Cons preserves_seq_Nil
        skipCurToken_decl emit_decl unary_decl)

lemma expression_decl: "preserves decl_inv (expression n)"
  by (rule preserves_ext[OF expression_def])
     (intro preserves_whileP preserves_seq_Cons preserves_seq_Nil
        skipCurToken_decl emit_decl term'_decl)

lemma comparison_decl: "preserves decl_inv (comparison n)"
  by (rule preserves_ext[OF comparison_def])
     (intro preserves_whileP preserves_if preserves_seq_Cons preserves_seq_Nil preserves_Exits
        skipCurToken_decl emit_decl expression_decl)

lemma nl_decl: "preserves decl_inv (nl n)"
  by (rule preserves_ext[OF nl_def])
     (intro preserves_whileP preserves_seq_Cons preserves_seq_Nil skipCurToken_decl)

lemma statement_decl: "preserves decl_inv (statement n)"
proof (induction n)
  case 0
  show ?case unfolding preserves_def by simp
next
  case (Suc n)
  show ?case
    by (rule preserves_ext[OF statement.simps(2)])
       ((rule declare_decl | rule preserves_seq_Cons | rule preserves_seq_Nil
         | rule preserves_whileP | rule Suc.IH | rule skipCurToken_decl | rule emit_decl
         | rule emitLine_decl | rule expression_decl | rule comparison_decl | rule nl_decl
         | rule labels_decl | rule preserves_Exits | rule preserves_Returns
         | rule preserves_if)+)
qed

lemma parsed_decl: "preserves decl_inv (parsed n)"
  by (rule preserves_ext[OF parsed_def])
     (intro preserves_whileP preserves_seq_Cons preserves_seq_Nil skipCurToken_decl
        prologue_decl statement_decl)

lemma finish_decl: "decl_inv p \<Longrightarrow> decl_inv (finish p)"
  by (simp add: decl_inv_def finish_def emitLine_def)

lemma program_decl:
  assumes "iteration_order ord"
  shows "preserves decl_inv (program ord n)"
  unfolding preserves_def
proof (intro allI impI)
  fix p q assume I: "decl_inv p" and r: "program ord n p = Returns q"
  from r obtain p' where p': "parsed n p = Returns p'" and q: "q = finish p'"
    by (auto simp: program_cases[OF assms] split: outcome.splits if_splits)
  from parsed_decl I p' have "decl_inv p'" by (rule preservesD)
  with q show "decl_inv q" by (simp add: finish_decl)
qed

lemma parser_of_decl: "parser_of src = Returns p \<Longrightarrow> decl_inv p"
  by (auto simp: parser_of_def Parser_init_def andThen_Returns_iff decl_inv_def
        Emitter_init_def)


section \<open>The claims about tokens, statements and the driver\<close>

lemma character_classes:
  "isdigit ''7'' \<and> isdigit [CHR 0xB2] \<and> isdigit [CHR 0xB3] \<and> isdigit [CHR 0xB9]
   \<and> \<not> isdigit [CHR 0xBD] \<and> \<not> isdigit ''a'' \<and> \<not> isdigit ''.''
   \<and> isalpha ''a'' \<and> isalpha ''Z'' \<and> isalpha [CHR 0xE9] \<and> \<not> isalpha [CHR 0xD7]
   \<and> \<not> isalpha [CHR 0xB2] \<and> \<not> isalpha ''7'' \<and> \<not> isalpha ''_''
   \<and> isalnum ''a'' \<and> isalnum ''7'' \<and> isalnum [CHR 0xBD] \<and> isalnum [CHR 0xB2]
   \<and> isalnum [CHR 0xE9] \<and> \<not> isalnum [CHR 0xF7] \<and> \<not> isalnum ''_''
   \<and> \<not> isdigit [] \<and> \<not> isalpha [] \<and> \<not> isalnum []"
  by (simp add: isdigit_def isalpha_def isalnum_def digit_char_def alpha_char_def
        numeric_char_def)



lemma let_5_dot_aborts:
  "getTokens 4 (Lexer_init ''LET x = 5.'') = Exits IllegalCharInNumber"
  by code_simp

lemma andThen_seq_Nil: "andThen r (seq []) = r"
  by (cases r) auto

text \<open>
  C3. When the first expression of a comparison has been parsed and the current token is no
  comparison operator, \<^verbatim>\<open>comparison\<close> exits with the error of the missing operator; so a
  \<^verbatim>\<open>comparison\<close> that returns has found an operator after its first expression. With an
  operator there, \<^verbatim>\<open>comparison\<close> parses the operator and a second expression, and then the
  loop takes further pairs of an operator and an expression while an operator is current.
\<close>

theorem comparison_needs_operator:
  "(expression n p = Returns p1 \<longrightarrow> \<not> curTokenIsComparisonOperator p1 \<longrightarrow>
      comparison n p = Exits (ExpectedComparison (text' (curToken p1))))
   \<and> (comparison n p = Returns q \<longrightarrow>
        (\<exists>p1. expression n p = Returns p1 \<and> curTokenIsComparisonOperator p1))
   \<and> (expression n p = Returns p1 \<longrightarrow> curTokenIsComparisonOperator p1 \<longrightarrow>
        comparison n p =
          andThen (seq [emitter_emit (\<lambda>p. text' (curToken p)), skipCurToken None,
                        expression n] p1)
            (whileP n curTokenIsComparisonOperator
               (seq [emitter_emit (\<lambda>p. text' (curToken p)), skipCurToken None,
                     expression n])))"
proof (cases "expression n p")
  case (Returns p1')
  then show ?thesis
    by (cases "seq [emitter_emit (\<lambda>p. text' (curToken p)), skipCurToken None,
                        expression n] p1'")
       (auto simp: comparison_def andThen_seq_Nil)
next
  case (Exits e)
  then show ?thesis by (simp add: comparison_def)
next
  case NoReturn
  then show ?thesis by (simp add: comparison_def)
qed

theorem comparison_needs_operator_witness:
  "expression 1 (returned (parser_of ''1 THEN''))
     = Returns (returned (expression 1 (returned (parser_of ''1 THEN''))))
   \<and> \<not> curTokenIsComparisonOperator (returned (expression 1 (returned (parser_of ''1 THEN''))))
   \<and> comparison 1 (returned (parser_of ''1 THEN'')) = Exits (ExpectedComparison ''THEN'')
   \<and> comparison 1 (returned (parser_of ''1 > 2 < 3''))
       = Returns (returned (comparison 1 (returned (parser_of ''1 > 2 < 3''))))
   \<and> (\<exists>p1. expression 1 (returned (parser_of ''1 > 2 < 3'')) = Returns p1
            \<and> curTokenIsComparisonOperator p1)"
proof -
  have h1: "expression 1 (returned (parser_of ''1 THEN''))
     = Returns (returned (expression 1 (returned (parser_of ''1 THEN''))))"
    by code_simp
  have h2: "\<not> curTokenIsComparisonOperator
               (returned (expression 1 (returned (parser_of ''1 THEN''))))"
    by code_simp
  have h3: "text' (curToken (returned (expression 1 (returned (parser_of ''1 THEN'')))))
              = ''THEN''"
    by code_simp
  have h4: "comparison 1 (returned (parser_of ''1 > 2 < 3''))
       = Returns (returned (comparison 1 (returned (parser_of ''1 > 2 < 3''))))"
    by code_simp
  from comparison_needs_operator[of 1 "returned (parser_of ''1 THEN'')"
      "returned (expression 1 (returned (parser_of ''1 THEN'')))"] h1 h2 h3
  have a: "comparison 1 (returned (parser_of ''1 THEN'')) = Exits (ExpectedComparison ''THEN'')"
    by simp
  from comparison_needs_operator[of 1 "returned (parser_of ''1 > 2 < 3'')" _
      "returned (comparison 1 (returned (parser_of ''1 > 2 < 3'')))"] h4
  have b: "\<exists>p1. expression 1 (returned (parser_of ''1 > 2 < 3'')) = Returns p1
            \<and> curTokenIsComparisonOperator p1"
    by blast
  from h1 h2 h4 a b show ?thesis by blast
qed

lemma finish_labels:
  "labelsGotoed (finish p) = labelsGotoed p" "labelsDeclared (finish p) = labelsDeclared p"
  by (simp_all add: finish_def)

lemma iteration_order_sorted: "iteration_order sorted_list_of_fset"
  by (simp add: iteration_order_def)

subsection \<open>The labels and the tokens of the source\<close>

lemma names_after_snoc:
  "ts \<noteq> [] \<Longrightarrow>
     names_after K (ts @ [u]) = names_after K ts @ (if kind (last ts) = K then [text' u] else [])"
  by (induction K ts rule: names_after.induct) auto

lemma getTokens_snoc:
  "getTokens (Suc n) l =
     andThen (getTokens n l) (\<lambda>(ts, l').
     andThen (getToken l') (\<lambda>(t, l''). Returns (ts @ [t], l'')))"
proof (induction n arbitrary: l)
  case 0
  show ?case by (cases "getToken l") auto
next
  case (Suc n)
  show ?case
  proof (cases "getToken l")
    case (Returns x)
    obtain t l1 where x: "x = (t, l1)" by (cases x)
    have "getTokens (Suc (Suc n)) l =
        andThen (getTokens (Suc n) l1) (\<lambda>(ts, l). Returns (t # ts, l))"
      using Returns x by simp
    also have "\<dots> = andThen (andThen (getTokens n l1) (\<lambda>(ts, l').
         andThen (getToken l') (\<lambda>(t, l''). Returns (ts @ [t], l''))))
           (\<lambda>(ts, l). Returns (t # ts, l))"
      by (simp only: Suc)
    also have "\<dots> = andThen (getTokens (Suc n) l) (\<lambda>(ts, l').
         andThen (getToken l') (\<lambda>(t, l''). Returns (ts @ [t], l'')))"
    proof (cases "getTokens n l1")
      case (Returns y)
      obtain us l2 where y: "y = (us, l2)" by (cases y)
      from Returns y \<open>getToken l = Returns x\<close> x show ?thesis
        by (cases "getToken l2") (auto split: prod.splits)
    next
      case (Exits e)
      with \<open>getToken l = Returns x\<close> x show ?thesis by simp
    next
      case NoReturn
      with \<open>getToken l = Returns x\<close> x show ?thesis by simp
    qed
    finally show ?thesis .
  next
    case (Exits e)
    then show ?thesis by simp
  next
    case NoReturn
    then show ?thesis by simp
  qed
qed

lemma set_butlast_last: "ts \<noteq> [] \<Longrightarrow> set ts = insert (last ts) (set (butlast ts))"
  by (induction ts) auto

lemma tracksD:
  "tracks l0 ts p \<Longrightarrow>
     ts \<noteq> [] \<and> last ts = curToken p
     \<and> getTokens (Suc (length ts)) l0 = Returns (ts @ [peekToken p], lexer p)
     \<and> (\<forall>t \<in> set (butlast ts). kind t \<noteq> EOF)
     \<and> labelsGotoed p = fset_of_list (names_after GOTO ts)
     \<and> labelsDeclared p = fset_of_list (names_after LABEL ts)"
  unfolding tracks_def by blast

lemma keepsD:
  "keeps l0 C f \<Longrightarrow> tracks l0 ts p \<Longrightarrow> C (curToken p) \<Longrightarrow> f p = Returns q \<Longrightarrow>
     \<exists>ts'. tracks l0 ts' q"
  unfolding keeps_def by blast

lemma stillD:
  "still f \<Longrightarrow> f p = Returns q \<Longrightarrow>
     curToken q = curToken p \<and> peekToken q = peekToken p \<and> lexer q = lexer p
     \<and> labelsGotoed q = labelsGotoed p \<and> labelsDeclared q = labelsDeclared p"
  unfolding still_def by blast

lemma stillI:
  "(\<And>p q. f p = Returns q \<Longrightarrow>
      curToken q = curToken p \<and> peekToken q = peekToken p \<and> lexer q = lexer p
      \<and> labelsGotoed q = labelsGotoed p \<and> labelsDeclared q = labelsDeclared p) \<Longrightarrow> still f"
  unfolding still_def by blast

lemma tracks_cong:
  "tracks l0 ts p \<Longrightarrow> curToken q = curToken p \<Longrightarrow> peekToken q = peekToken p \<Longrightarrow>
     lexer q = lexer p \<Longrightarrow> labelsGotoed q = labelsGotoed p \<Longrightarrow>
     labelsDeclared q = labelsDeclared p \<Longrightarrow> tracks l0 ts q"
  unfolding tracks_def by simp

text \<open>What one pull from the lexer does to the position in the token list.\<close>

lemma skipCurToken_tracks:
  assumes t: "tracks l0 ts p" and r: "skipCurToken r p = Returns q"
  shows "curToken q = peekToken p
     \<and> getTokens (Suc (length (ts @ [curToken q]))) l0
         = Returns ((ts @ [curToken q]) @ [peekToken q], lexer q)
     \<and> labelsGotoed q = labelsGotoed p \<and> labelsDeclared q = labelsDeclared p
     \<and> (case r of None \<Rightarrow> True | Some K \<Rightarrow> kind (curToken p) = K)"
proof -
  note T = tracksD[OF t]
  from r have req: "case r of None \<Rightarrow> True | Some K \<Rightarrow> kind (curToken p) = K"
    by (auto simp: skipCurToken_def curTokeHasType_def split: option.splits if_splits)
  from r obtain tok l' where g: "getToken (lexer p) = Returns (tok, l')"
    and q: "q = p\<lparr>curToken := peekToken p, peekToken := tok, lexer := l'\<rparr>"
    by (auto simp: skipCurToken_def andThen_Returns_iff split: if_splits)
  have "getTokens (Suc (Suc (length ts))) l0 = Returns ((ts @ [peekToken p]) @ [tok], l')"
    using T g by (simp add: getTokens_snoc[of "Suc (length ts)"] del: getTokens.simps)
  with q req show ?thesis by simp
qed

lemma skipCurToken_keeps:
  assumes C: "\<And>t. C t \<Longrightarrow> kind t \<noteq> GOTO \<and> kind t \<noteq> LABEL \<and> kind t \<noteq> EOF"
  shows "keeps l0 C (skipCurToken r)"
  unfolding keeps_def
proof (intro allI impI)
  fix p q ts
  assume a: "tracks l0 ts p \<and> C (curToken p) \<and> skipCurToken r p = Returns q"
  then have t: "tracks l0 ts p" and r: "skipCurToken r p = Returns q" by simp_all
  note T = tracksD[OF t] and S = skipCurToken_tracks[OF t r]
  from a C have k: "kind (last ts) \<noteq> GOTO" "kind (last ts) \<noteq> LABEL" "kind (last ts) \<noteq> EOF"
    using T by auto
  from T have ne: "ts \<noteq> []" by simp
  from T k have eof: "\<forall>t \<in> set ts. kind t \<noteq> EOF"
    using set_butlast_last[OF ne] by auto
  from T S k ne have g: "labelsGotoed q = fset_of_list (names_after GOTO (ts @ [curToken q]))"
    and d: "labelsDeclared q = fset_of_list (names_after LABEL (ts @ [curToken q]))"
    by (simp_all add: names_after_snoc)
  from S have "getTokens (Suc (length (ts @ [curToken q]))) l0
         = Returns ((ts @ [curToken q]) @ [peekToken q], lexer q)" by blast
  with eof g d have "tracks l0 (ts @ [curToken q]) q"
    unfolding tracks_def by simp
  then show "\<exists>ts'. tracks l0 ts' q" ..
qed

lemma skipCurToken_required_keeps:
  assumes "K \<noteq> GOTO" "K \<noteq> LABEL" "K \<noteq> EOF"
  shows "keeps l0 C (skipCurToken (Some K))"
  unfolding keeps_def
proof (intro allI impI)
  fix p q ts
  assume a: "tracks l0 ts p \<and> C (curToken p) \<and> skipCurToken (Some K) p = Returns q"
  then have t: "tracks l0 ts p" and r: "skipCurToken (Some K) p = Returns q" by simp_all
  from r have "kind (curToken p) = K"
    by (auto simp: skipCurToken_def curTokeHasType_def split: if_splits)
  with assms have "kind (curToken p) \<noteq> GOTO \<and> kind (curToken p) \<noteq> LABEL
      \<and> kind (curToken p) \<noteq> EOF" by simp
  from keepsD[OF skipCurToken_keeps[where C = "\<lambda>t. kind t \<noteq> GOTO \<and> kind t \<noteq> LABEL
      \<and> kind t \<noteq> EOF"] t this r]
  show "\<exists>ts'. tracks l0 ts' q" by simp
qed

lemma keepsI:
  "(\<And>p q ts. tracks l0 ts p \<Longrightarrow> C (curToken p) \<Longrightarrow> f p = Returns q \<Longrightarrow> \<exists>ts'. tracks l0 ts' q)
     \<Longrightarrow> keeps l0 C f"
  unfolding keeps_def by blast

lemma keeps_ext:
  assumes "\<And>p. f p = g p" and "keeps l0 C g"
  shows "keeps l0 C f"
proof -
  from assms(1) have "f = g" by (rule ext)
  with assms(2) show ?thesis by simp
qed

lemma keeps_weaken:
  assumes f: "keeps l0 C f" and D: "\<And>t. D t \<Longrightarrow> C t"
  shows "keeps l0 D f"
proof (rule keepsI)
  fix p q ts
  assume t: "tracks l0 ts p" and d: "D (curToken p)" and r: "f p = Returns q"
  from keepsD[OF f t D[OF d] r] show "\<exists>ts'. tracks l0 ts' q" .
qed

lemma keeps_still:
  assumes s: "still f"
  shows "keeps l0 C f"
proof (rule keepsI)
  fix p q ts
  assume t: "tracks l0 ts p" and r: "f p = Returns q"
  note S = stillD[OF s r]
  from S have "tracks l0 ts q" by (intro tracks_cong[OF t]) blast+
  then show "\<exists>ts'. tracks l0 ts' q" ..
qed

lemma keeps_Exits: "keeps l0 C (\<lambda>p. Exits (e p))"
  by (rule keepsI) simp

lemma keeps_seq_Nil: "keeps l0 C (seq [])"
proof (rule keepsI)
  fix p q :: Parser and ts
  assume t: "tracks l0 ts p" and r: "seq [] p = Returns q"
  from r have "q = p" by simp
  with t show "\<exists>ts'. tracks l0 ts' q" by blast
qed

lemma keeps_seq_Cons:
  assumes f: "keeps l0 C f" and fs: "keeps l0 (\<lambda>t. True) (seq fs)"
  shows "keeps l0 C (seq (f # fs))"
proof (rule keepsI)
  fix p q ts
  assume t: "tracks l0 ts p" and c: "C (curToken p)" and r: "seq (f # fs) p = Returns q"
  from r obtain p1 where p1: "f p = Returns p1" and q: "seq fs p1 = Returns q"
    by (auto simp: andThen_Returns_iff)
  from keepsD[OF f t c p1] obtain ts1 where t1: "tracks l0 ts1 p1" ..
  from keepsD[OF fs t1 TrueI q] show "\<exists>ts'. tracks l0 ts' q" .
qed

lemma keeps_still_Cons:
  assumes g: "still g" and fs: "keeps l0 C (seq fs)"
  shows "keeps l0 C (seq (g # fs))"
proof (rule keepsI)
  fix p q ts
  assume t: "tracks l0 ts p" and c: "C (curToken p)" and r: "seq (g # fs) p = Returns q"
  from r obtain p1 where p1: "g p = Returns p1" and q: "seq fs p1 = Returns q"
    by (auto simp: andThen_Returns_iff)
  note S = stillD[OF g p1]
  from S have t1: "tracks l0 ts p1" by (intro tracks_cong[OF t]) blast+
  from c S have "C (curToken p1)" by simp
  from keepsD[OF fs t1 this q] show "\<exists>ts'. tracks l0 ts' q" .
qed

lemma keeps_if:
  assumes c: "\<And>p. c p \<Longrightarrow> D (curToken p)"
    and f: "keeps l0 (\<lambda>t. C t \<and> D t) f" and g: "keeps l0 C g"
  shows "keeps l0 C (\<lambda>p. if c p then f p else g p)"
  unfolding keeps_def
proof (intro allI impI)
  fix p q ts
  assume a: "tracks l0 ts p \<and> C (curToken p) \<and> (if c p then f p else g p) = Returns q"
  show "\<exists>ts'. tracks l0 ts' q"
  proof (cases "c p")
    case True
    with a c[OF True] keepsD[OF f, of ts p q] show ?thesis by simp
  next
    case False
    with a keepsD[OF g, of ts p q] show ?thesis by simp
  qed
qed

lemma keeps_if_kind:
  assumes "keeps l0 (\<lambda>t. C t \<and> kind t = K) f" and "keeps l0 C g"
  shows "keeps l0 C (\<lambda>p. if curTokeHasType K p then f p else g p)"
  by (rule keeps_if[where D = "\<lambda>t. kind t = K"]) (simp_all add: curTokeHasType_def assms)

lemma keeps_whileP:
  assumes c: "\<And>p. c p \<Longrightarrow> D (curToken p)" and b: "keeps l0 D b"
  shows "keeps l0 C (whileP n c b)"
proof -
  have "tracks l0 ts p \<Longrightarrow> whileP k c b p = Returns q \<Longrightarrow> \<exists>ts'. tracks l0 ts' q" for k p q ts
  proof (induction k arbitrary: p ts)
    case 0
    then show ?case by (auto split: if_splits)
  next
    case (Suc k)
    show ?case
    proof (cases "c p")
      case False
      with Suc.prems show ?thesis by auto
    next
      case True
      with Suc.prems obtain p1 where p1: "b p = Returns p1" and q: "whileP k c b p1 = Returns q"
        by (auto simp: andThen_Returns_iff)
      from keepsD[OF b Suc.prems(1) c[OF True] p1] obtain ts1 where "tracks l0 ts1 p1" ..
      from Suc.IH[OF this q] show ?thesis .
    qed
  qed
  then show ?thesis unfolding keeps_def by blast
qed

lemma still_emit: "still (emitter_emit t)"
  unfolding still_def emitter_emit_def by auto

lemma still_emitLine: "still (emitter_emitLine t)"
  unfolding still_def emitter_emitLine_def by auto

lemma still_headerLine: "still (emitter_headerLine t)"
  unfolding still_def emitter_headerLine_def by auto

lemma still_symbols: "still (\<lambda>p. Returns (p\<lparr>symbolsDeclared := h p\<rparr>))"
  unfolding still_def by auto

lemma still_Returns: "still Returns"
  unfolding still_def by auto

lemma still_Exits: "still (\<lambda>p. Exits (e p))"
  unfolding still_def by auto

lemma still_if:
  assumes f: "still f" and g: "still g"
  shows "still (\<lambda>p. if c p then f p else g p)"
proof (rule stillI)
  fix p q
  assume "(if c p then f p else g p) = Returns q"
  with stillD[OF f, of p q] stillD[OF g, of p q]
  show "curToken q = curToken p \<and> peekToken q = peekToken p \<and> lexer q = lexer p
     \<and> labelsGotoed q = labelsGotoed p \<and> labelsDeclared q = labelsDeclared p"
    by (cases "c p") simp_all
qed

lemma still_seq_Nil: "still (seq [])"
  unfolding still_def by auto

lemma still_seq_Cons:
  assumes f: "still f" and fs: "still (seq fs)"
  shows "still (seq (f # fs))"
proof (rule stillI)
  fix p q
  assume "seq (f # fs) p = Returns q"
  then obtain p1 where p1: "f p = Returns p1" and q: "seq fs p1 = Returns q"
    by (auto simp: andThen_Returns_iff)
  from stillD[OF f p1] stillD[OF fs q]
  show "curToken q = curToken p \<and> peekToken q = peekToken p \<and> lexer q = lexer p
     \<and> labelsGotoed q = labelsGotoed p \<and> labelsDeclared q = labelsDeclared p"
    by simp
qed

lemmas still_rules =
  still_emit still_emitLine still_headerLine still_symbols still_Returns still_Exits still_if
  still_seq_Nil still_seq_Cons

lemma keeps_skip_Cons:
  assumes C: "\<And>t. C t \<Longrightarrow> kind t \<noteq> GOTO \<and> kind t \<noteq> LABEL \<and> kind t \<noteq> EOF"
    and fs: "keeps l0 (\<lambda>t. True) (seq fs)"
  shows "keeps l0 C (seq (skipCurToken None # fs))"
  by (rule keeps_seq_Cons[OF skipCurToken_keeps fs]) (rule C)

lemma keeps_operator_block:
  assumes C: "\<And>t. C t \<Longrightarrow> kind t \<noteq> GOTO \<and> kind t \<noteq> LABEL \<and> kind t \<noteq> EOF"
    and g: "still g" and fs: "keeps l0 (\<lambda>t. True) (seq fs)"
  shows "keeps l0 C (seq (g # skipCurToken None # fs))"
  by (rule keeps_still_Cons[OF g keeps_skip_Cons[OF C fs]])

lemma keeps_emit: "keeps l0 C (emitter_emit t)"
  by (rule keeps_still[OF still_emit])

lemma keeps_emitLine: "keeps l0 C (emitter_emitLine t)"
  by (rule keeps_still[OF still_emitLine])

lemma keeps_headerLine: "keeps l0 C (emitter_headerLine t)"
  by (rule keeps_still[OF still_headerLine])

lemma keeps_declare:
  "keeps l0 C (\<lambda>p. if c p
       then seq [(\<lambda>p. Returns (p\<lparr>symbolsDeclared := h p\<rparr>)), emitter_headerLine t] p
       else Returns p)"
  by (rule keeps_still) (intro still_rules)

lemma primary_keeps: "keeps l0 C primary"
proof (rule keeps_ext[OF primary_def], intro keeps_if_kind keeps_Exits)
  show "keeps l0 (\<lambda>t. C t \<and> kind t = NUMBER)
          (seq [emitter_emit (\<lambda>p. text' (curToken p)), skipCurToken None])"
    by (rule keeps_operator_block[OF _ still_emit keeps_seq_Nil]) simp
  show "keeps l0 (\<lambda>t. C t \<and> kind t = IDENT)
     (\<lambda>p. if text' (curToken p) |\<notin>| symbolsDeclared p
           then Exits (ReferencedBeforeAssignment (text' (curToken p)))
           else seq [emitter_emit (\<lambda>p. text' (curToken p)), skipCurToken None] p)"
  proof (rule keeps_if[where D = "\<lambda>t. True"])
    show "keeps l0 (\<lambda>t. C t \<and> kind t = IDENT)
            (seq [emitter_emit (\<lambda>p. text' (curToken p)), skipCurToken None])"
      by (rule keeps_operator_block[OF _ still_emit keeps_seq_Nil]) simp
  qed (simp_all add: keeps_Exits)
qed

lemma unary_keeps: "keeps l0 C unary"
proof (rule keeps_ext[OF unary_def], intro keeps_seq_Cons keeps_seq_Nil primary_keeps)
  show "keeps l0 C (\<lambda>p. if curTokeHasType PLUS p \<or> curTokeHasType MINUS p
          then seq [emitter_emit (\<lambda>p. text' (curToken p)), skipCurToken None] p
          else Returns p)"
  proof (rule keeps_if[where D = "\<lambda>t. kind t = PLUS \<or> kind t = MINUS"])
    show "keeps l0 (\<lambda>t. C t \<and> (kind t = PLUS \<or> kind t = MINUS))
            (seq [emitter_emit (\<lambda>p. text' (curToken p)), skipCurToken None])"
      by (rule keeps_operator_block[OF _ still_emit keeps_seq_Nil]) auto
    show "keeps l0 C Returns" by (rule keeps_still[OF still_Returns])
  qed (auto simp: curTokeHasType_def)
qed

lemma operator_loop_keeps:
  assumes c: "\<And>p. c p \<Longrightarrow> kind (curToken p) \<noteq> GOTO \<and> kind (curToken p) \<noteq> LABEL
                  \<and> kind (curToken p) \<noteq> EOF"
    and f: "keeps l0 (\<lambda>t. True) f"
  shows "keeps l0 C
           (whileP n c (seq [emitter_emit (\<lambda>p. text' (curToken p)), skipCurToken None, f]))"
proof (rule keeps_whileP[where D = "\<lambda>t. kind t \<noteq> GOTO \<and> kind t \<noteq> LABEL \<and> kind t \<noteq> EOF"])
  show "keeps l0 (\<lambda>t. kind t \<noteq> GOTO \<and> kind t \<noteq> LABEL \<and> kind t \<noteq> EOF)
          (seq [emitter_emit (\<lambda>p. text' (curToken p)), skipCurToken None, f])"
    by (rule keeps_operator_block[OF _ still_emit keeps_seq_Cons[OF f keeps_seq_Nil]]) simp
qed (rule c)

lemma term'_keeps: "keeps l0 C (term' n)"
  by (rule keeps_ext[OF term'_def],
      intro keeps_seq_Cons keeps_seq_Nil unary_keeps operator_loop_keeps)
     (auto simp: curTokeHasType_def)

lemma expression_keeps: "keeps l0 C (expression n)"
  by (rule keeps_ext[OF expression_def],
      intro keeps_seq_Cons keeps_seq_Nil term'_keeps operator_loop_keeps)
     (auto simp: curTokeHasType_def)

lemma comparison_keeps: "keeps l0 C (comparison n)"
proof (rule keeps_ext[OF comparison_def],
    intro keeps_seq_Cons keeps_seq_Nil expression_keeps operator_loop_keeps)
  show "keeps l0 (\<lambda>t. True) (\<lambda>p. if curTokenIsComparisonOperator p
          then seq [emitter_emit (\<lambda>p. text' (curToken p)), skipCurToken None, expression n] p
          else Exits (ExpectedComparison (text' (curToken p))))"
  proof (rule keeps_if[where D = "\<lambda>t. kind t \<noteq> GOTO \<and> kind t \<noteq> LABEL \<and> kind t \<noteq> EOF"])
    show "keeps l0 (\<lambda>t. True \<and> (kind t \<noteq> GOTO \<and> kind t \<noteq> LABEL \<and> kind t \<noteq> EOF))
            (seq [emitter_emit (\<lambda>p. text' (curToken p)), skipCurToken None, expression n])"
      by (rule keeps_operator_block[OF _ still_emit
              keeps_seq_Cons[OF expression_keeps keeps_seq_Nil]]) simp
  qed (auto simp: curTokenIsComparisonOperator_def curTokeHasType_def keeps_Exits)
qed (auto simp: curTokenIsComparisonOperator_def curTokeHasType_def)

lemma newlines_keeps: "keeps l0 C (whileP n (curTokeHasType NEWLINE) (skipCurToken None))"
proof (rule keeps_whileP[where D = "\<lambda>t. kind t = NEWLINE"])
  show "keeps l0 (\<lambda>t. kind t = NEWLINE) (skipCurToken None)"
    by (rule skipCurToken_keeps) simp
qed (simp add: curTokeHasType_def)

lemma nl_keeps: "keeps l0 C (nl n)"
  by (rule keeps_ext[OF nl_def],
      intro keeps_seq_Cons keeps_seq_Nil newlines_keeps skipCurToken_required_keeps) simp_all

text \<open>The two branches that record a label.\<close>

lemma goto_keeps:
  assumes fs: "keeps l0 (\<lambda>t. True) (seq fs)"
  shows "keeps l0 (\<lambda>t. C t \<and> kind t = GOTO)
     (seq (skipCurToken None
           # (\<lambda>p. Returns (p\<lparr>labelsGotoed := finsert (text' (curToken p)) (labelsGotoed p)\<rparr>))
           # fs))"
proof (rule keepsI)
  fix p q ts
  assume t: "tracks l0 ts p" and c: "C (curToken p) \<and> kind (curToken p) = GOTO"
    and r: "seq (skipCurToken None
           # (\<lambda>p. Returns (p\<lparr>labelsGotoed := finsert (text' (curToken p)) (labelsGotoed p)\<rparr>))
           # fs) p = Returns q"
  from r obtain p1 where p1: "skipCurToken None p = Returns p1"
    and q: "seq fs (p1\<lparr>labelsGotoed := finsert (text' (curToken p1)) (labelsGotoed p1)\<rparr>)
              = Returns q"
    by (auto simp: andThen_Returns_iff)
  note T = tracksD[OF t] and S = skipCurToken_tracks[OF t p1]
  let ?p2 = "p1\<lparr>labelsGotoed := finsert (text' (curToken p1)) (labelsGotoed p1)\<rparr>"
  from T have ne: "ts \<noteq> []" by simp
  from T c have k: "kind (last ts) = GOTO" by simp
  from T k have eof: "\<forall>t \<in> set ts. kind t \<noteq> EOF"
    using set_butlast_last[OF ne] by auto
  from T S k ne have g: "labelsGotoed ?p2 = fset_of_list (names_after GOTO (ts @ [curToken p1]))"
    and d: "labelsDeclared ?p2 = fset_of_list (names_after LABEL (ts @ [curToken p1]))"
    by (simp_all add: names_after_snoc)
  from S have "getTokens (Suc (length (ts @ [curToken p1]))) l0
         = Returns ((ts @ [curToken p1]) @ [peekToken p1], lexer p1)" by blast
  with eof g d have "tracks l0 (ts @ [curToken p1]) ?p2"
    unfolding tracks_def by simp
  from keepsD[OF fs this TrueI q] show "\<exists>ts'. tracks l0 ts' q" .
qed

lemma label_keeps:
  assumes fs: "keeps l0 (\<lambda>t. True) (seq fs)"
  shows "keeps l0 (\<lambda>t. C t \<and> kind t = LABEL)
     (seq (skipCurToken None
           # (\<lambda>p. if text' (curToken p) |\<in>| labelsDeclared p
                   then Exits (LabelExists (text' (curToken p)))
                   else Returns p)
           # (\<lambda>p. Returns (p\<lparr>labelsDeclared :=
                                 finsert (text' (curToken p)) (labelsDeclared p)\<rparr>))
           # fs))"
proof (rule keepsI)
  fix p q ts
  assume t: "tracks l0 ts p" and c: "C (curToken p) \<and> kind (curToken p) = LABEL"
    and r: "seq (skipCurToken None
           # (\<lambda>p. if text' (curToken p) |\<in>| labelsDeclared p
                   then Exits (LabelExists (text' (curToken p)))
                   else Returns p)
           # (\<lambda>p. Returns (p\<lparr>labelsDeclared :=
                                 finsert (text' (curToken p)) (labelsDeclared p)\<rparr>))
           # fs) p = Returns q"
  from r obtain p1 where p1: "skipCurToken None p = Returns p1"
    and q: "seq fs (p1\<lparr>labelsDeclared := finsert (text' (curToken p1)) (labelsDeclared p1)\<rparr>)
              = Returns q"
    by (auto simp: andThen_Returns_iff split: if_splits)
  note T = tracksD[OF t] and S = skipCurToken_tracks[OF t p1]
  let ?p2 = "p1\<lparr>labelsDeclared := finsert (text' (curToken p1)) (labelsDeclared p1)\<rparr>"
  from T have ne: "ts \<noteq> []" by simp
  from T c have k: "kind (last ts) = LABEL" by simp
  from T k have eof: "\<forall>t \<in> set ts. kind t \<noteq> EOF"
    using set_butlast_last[OF ne] by auto
  from T S k ne have g: "labelsGotoed ?p2 = fset_of_list (names_after GOTO (ts @ [curToken p1]))"
    and d: "labelsDeclared ?p2 = fset_of_list (names_after LABEL (ts @ [curToken p1]))"
    by (simp_all add: names_after_snoc)
  from S have "getTokens (Suc (length (ts @ [curToken p1]))) l0
         = Returns ((ts @ [curToken p1]) @ [peekToken p1], lexer p1)" by blast
  with eof g d have "tracks l0 (ts @ [curToken p1]) ?p2"
    unfolding tracks_def by simp
  from keepsD[OF fs this TrueI q] show "\<exists>ts'. tracks l0 ts' q" .
qed

lemma statement_keeps: "keeps l0 C (statement n)"
proof (induction n arbitrary: C)
  case 0
  show ?case by (rule keepsI) simp
next
  case (Suc n)
  have body: "keeps l0 D (whileP n c (statement n))" for c D
    by (rule keeps_whileP[where D = "\<lambda>t. True"]) (simp_all add: Suc.IH)
  note rules = keeps_seq_Cons keeps_seq_Nil keeps_emit keeps_emitLine keeps_headerLine
    keeps_declare expression_keeps comparison_keeps nl_keeps body skipCurToken_required_keeps
  have print: "keeps l0 (\<lambda>t. True)
     (seq [\<lambda>p. if curTokeHasType STRING p then
                 seq [emitter_emitLine (\<lambda>p. ''printf('' @ [CHR 0x22] @ text' (curToken p)
                                            @ [CHR 0x5C] @ ''n'' @ [CHR 0x22] @ '');''),
                      skipCurToken None] p
               else
                 seq [emitter_emit (\<lambda>p. ''printf('' @ [CHR 0x22] @ ''%.2f'' @ [CHR 0x5C]
                                         @ ''n'' @ [CHR 0x22] @ '', (float)(''),
                      expression n,
                      emitter_emitLine (\<lambda>p. ''));'')] p])"
  proof (rule keeps_seq_Cons[OF keeps_if_kind keeps_seq_Nil])
    show "keeps l0 (\<lambda>t. True)
       (seq [emitter_emit (\<lambda>p. ''printf('' @ [CHR 0x22] @ ''%.2f'' @ [CHR 0x5C]
                                         @ ''n'' @ [CHR 0x22] @ '', (float)(''),
             expression n,
             emitter_emitLine (\<lambda>p. ''));'')])"
      by (intro rules)
    show "keeps l0 (\<lambda>t. True \<and> kind t = STRING)
       (seq [emitter_emitLine (\<lambda>p. ''printf('' @ [CHR 0x22] @ text' (curToken p)
                                            @ [CHR 0x5C] @ ''n'' @ [CHR 0x22] @ '');''),
             skipCurToken None])"
      by (rule keeps_operator_block[OF _ still_emitLine keeps_seq_Nil]) simp
  qed
  have first: "keeps l0 (\<lambda>t. C t \<and> kind t = K) (seq (skipCurToken None # fs))"
    if "K \<noteq> GOTO" "K \<noteq> LABEL" "K \<noteq> EOF" "keeps l0 (\<lambda>t. True) (seq fs)" for K fs
    using that by (intro keeps_skip_Cons) simp_all
  show ?case
    apply (rule keeps_ext[OF statement.simps(2)])
    apply (rule keeps_seq_Cons)
     apply (intro keeps_if_kind keeps_Exits)
           apply (rule first, simp, simp, simp, rule print)
          apply (rule first, simp, simp, simp, (intro rules; simp))
         apply (rule first, simp, simp, simp, (intro rules; simp))
        apply (rule label_keeps, (intro rules; simp))
       apply (rule goto_keeps, (intro rules; simp))
      apply (rule first, simp, simp, simp, (intro rules; simp))
     apply (rule first, simp, simp, simp, (intro rules; simp))
    apply (intro rules)
    done
qed

lemma parsed_keeps: "keeps l0 C (parsed n)"
proof (rule keeps_ext[OF parsed_def],
    intro keeps_seq_Cons keeps_seq_Nil keeps_headerLine newlines_keeps)
  show "keeps l0 (\<lambda>t. True) (whileP n (\<lambda>p. \<not> curTokeHasType EOF p) (statement n))"
    by (rule keeps_whileP[where D = "\<lambda>t. True"]) (simp_all add: statement_keeps)
qed

lemma whileP_exit: "whileP n c b s = Returns s' \<Longrightarrow> \<not> c s'"
  by (induction n arbitrary: s) (auto simp: andThen_Returns_iff split: if_splits)

lemma parsed_EOF: "parsed n p = Returns p' \<Longrightarrow> kind (curToken p') = EOF"
  unfolding parsed_def
  by (auto simp: andThen_Returns_iff curTokeHasType_def dest!: whileP_exit)

lemma parser_of_tracks:
  assumes "parser_of src = Returns p0"
  shows "tracks (Lexer_init src) [curToken p0] p0"
proof -
  from assms obtain t1 l1 t2 l2 where g1: "getToken (Lexer_init src) = Returns (t1, l1)"
    and g2: "getToken l1 = Returns (t2, l2)"
    and p0: "p0 = \<lparr>lexer = l2, emitter = Emitter_init ''out.c'',
                symbolsDeclared = {||}, labelsDeclared = {||}, labelsGotoed = {||},
                curToken = t1, peekToken = t2\<rparr>"
    by (auto simp: parser_of_def Parser_init_def andThen_Returns_iff)
  then show ?thesis by (simp add: tracks_def)
qed

lemma compile_tracks:
  assumes p0: "parser_of src = Returns p0" and p': "parsed n p0 = Returns p'"
  shows "\<exists>ts. tracks (Lexer_init src) ts p' \<and> kind (last ts) = EOF"
proof -
  from keepsD[OF parsed_keeps[where C = "\<lambda>t. True"] parser_of_tracks[OF p0] TrueI p']
  obtain ts where t: "tracks (Lexer_init src) ts p'" ..
  from tracksD[OF t] parsed_EOF[OF p'] have "kind (last ts) = EOF" by simp
  with t show ?thesis by blast
qed

lemma tracks_finish: "tracks l0 ts p \<Longrightarrow> tracks l0 ts (finish p)"
  by (rule tracks_cong) (simp_all add: finish_def)

lemma fset_of_list_subset:
  "(fset_of_list xs |\<subseteq>| fset_of_list ys) = (set xs \<subseteq> set ys)"
  by (simp add: less_eq_fset.rep_eq fset_of_list.rep_eq)


text \<open>
  C1. For every source text: when the compilation returns, the parser has read the tokens
  of the source up to the first \<open>EOF\<close> token, the labels in \<^verbatim>\<open>labelsGotoed\<close> are exactly the
  names that follow a \<open>GOTO\<close> token there, the labels in \<^verbatim>\<open>labelsDeclared\<close> exactly the names
  that follow a \<open>LABEL\<close> token, and every one of the former is one of the latter. The check
  comes after the whole input is parsed: when the statements have been parsed and some name
  after a \<open>GOTO\<close> is the name after no \<open>LABEL\<close>, \<^verbatim>\<open>program\<close> exits with the undeclared-label
  error for such a name; when there is none, it returns. The order of the tokens plays no
  part, so a GOTO may come before the LABEL it names.
\<close>

theorem goto_labels_declared:
  "iteration_order ord \<Longrightarrow> parser_of src = Returns p0 \<Longrightarrow>
     (program ord n p0 = Returns q \<longrightarrow>
        (\<exists>ts. tracks (Lexer_init src) ts q \<and> kind (last ts) = EOF
              \<and> set (names_after GOTO ts) \<subseteq> set (names_after LABEL ts)
              \<and> labelsGotoed q |\<subseteq>| labelsDeclared q))
     \<and> (parsed n p0 = Returns p' \<longrightarrow>
          (\<exists>ts. tracks (Lexer_init src) ts p' \<and> kind (last ts) = EOF
             \<and> (\<not> set (names_after GOTO ts) \<subseteq> set (names_after LABEL ts) \<longrightarrow>
                  (\<exists>l. l \<in> set (names_after GOTO ts) \<and> l \<notin> set (names_after LABEL ts)
                       \<and> program ord n p0 = Exits (UndeclaredLabel l)))
             \<and> (set (names_after GOTO ts) \<subseteq> set (names_after LABEL ts) \<longrightarrow>
                  program ord n p0 = Returns (finish p'))))"
proof -
  assume ord: "iteration_order ord" and p0: "parser_of src = Returns p0"
  have b: "\<exists>ts. tracks (Lexer_init src) ts p' \<and> kind (last ts) = EOF
             \<and> (\<not> set (names_after GOTO ts) \<subseteq> set (names_after LABEL ts) \<longrightarrow>
                  (\<exists>l. l \<in> set (names_after GOTO ts) \<and> l \<notin> set (names_after LABEL ts)
                       \<and> program ord n p0 = Exits (UndeclaredLabel l)))
             \<and> (set (names_after GOTO ts) \<subseteq> set (names_after LABEL ts) \<longrightarrow>
                  program ord n p0 = Returns (finish p'))"
    if p': "parsed n p0 = Returns p'" for p'
  proof -
    from compile_tracks[OF p0 p'] obtain ts where t: "tracks (Lexer_init src) ts p'"
      and e: "kind (last ts) = EOF" by blast
    from tracksD[OF t] have g: "labelsGotoed p' = fset_of_list (names_after GOTO ts)"
      and d: "labelsDeclared p' = fset_of_list (names_after LABEL ts)" by blast+
    have sub: "(labelsGotoed p' |\<subseteq>| labelsDeclared p')
        = (set (names_after GOTO ts) \<subseteq> set (names_after LABEL ts))"
      by (simp add: g d fset_of_list_subset)
    have ok: "program ord n p0 = Returns (finish p')"
      if "set (names_after GOTO ts) \<subseteq> set (names_after LABEL ts)"
      using that sub p' by (simp add: program_cases[OF ord])
    have bad: "\<exists>l. l \<in> set (names_after GOTO ts) \<and> l \<notin> set (names_after LABEL ts)
                       \<and> program ord n p0 = Exits (UndeclaredLabel l)"
      if ns: "\<not> set (names_after GOTO ts) \<subseteq> set (names_after LABEL ts)"
    proof -
      from ns sub have ns': "\<not> labelsGotoed p' |\<subseteq>| labelsDeclared p'" by simp
      let ?l = "hd (filter (\<lambda>l. l |\<notin>| labelsDeclared p') (ord (labelsGotoed p')))"
      from undeclared_label_in[OF ord ns']
      have "?l |\<in>| labelsGotoed p'" "?l |\<notin>| labelsDeclared p'" by simp_all
      then have "?l \<in> set (names_after GOTO ts)" "?l \<notin> set (names_after LABEL ts)"
        by (simp_all add: g d fset_of_list.rep_eq)
      moreover from ns' p' have "program ord n p0 = Exits (UndeclaredLabel ?l)"
        by (simp add: program_cases[OF ord])
      ultimately show ?thesis by blast
    qed
    from t e ok bad show ?thesis by blast
  qed
  have a: "\<exists>ts. tracks (Lexer_init src) ts q \<and> kind (last ts) = EOF
              \<and> set (names_after GOTO ts) \<subseteq> set (names_after LABEL ts)
              \<and> labelsGotoed q |\<subseteq>| labelsDeclared q"
    if q: "program ord n p0 = Returns q" for q
  proof -
    from q obtain p' where p': "parsed n p0 = Returns p'"
      and s: "labelsGotoed p' |\<subseteq>| labelsDeclared p'" and qf: "q = finish p'"
      by (auto simp: program_cases[OF ord] split: outcome.splits if_splits)
    from compile_tracks[OF p0 p'] obtain ts where t: "tracks (Lexer_init src) ts p'"
      and e: "kind (last ts) = EOF" by blast
    from tracksD[OF t] s have "set (names_after GOTO ts) \<subseteq> set (names_after LABEL ts)"
      by (simp add: fset_of_list_subset)
    with tracks_finish[OF t] e s qf show ?thesis by (auto simp: finish_labels)
  qed
  from a b show ?thesis by blast
qed

theorem goto_labels_declared_witness:
  "iteration_order sorted_list_of_fset
   \<and> parser_of (''GOTO a'' @ [CHR 0x0A] @ ''GOTO b'' @ [CHR 0x0A] @ ''LABEL b'' @ [CHR 0x0A]
                 @ ''LABEL a'')
       = Returns (returned (parser_of (''GOTO a'' @ [CHR 0x0A] @ ''GOTO b'' @ [CHR 0x0A]
                    @ ''LABEL b'' @ [CHR 0x0A] @ ''LABEL a'')))
   \<and> (\<exists>q ts. program sorted_list_of_fset 5
               (returned (parser_of (''GOTO a'' @ [CHR 0x0A] @ ''GOTO b'' @ [CHR 0x0A]
                    @ ''LABEL b'' @ [CHR 0x0A] @ ''LABEL a''))) = Returns q
         \<and> tracks (Lexer_init (''GOTO a'' @ [CHR 0x0A] @ ''GOTO b'' @ [CHR 0x0A]
                    @ ''LABEL b'' @ [CHR 0x0A] @ ''LABEL a'')) ts q
         \<and> labelsGotoed q = {|''a'', ''b''|}
         \<and> set (names_after GOTO ts) \<subseteq> set (names_after LABEL ts))
   \<and> parser_of (''GOTO a'' @ [CHR 0x0A] @ ''GOTO b'' @ [CHR 0x0A] @ ''LABEL b'')
       = Returns (returned (parser_of (''GOTO a'' @ [CHR 0x0A] @ ''GOTO b'' @ [CHR 0x0A]
                    @ ''LABEL b'')))
   \<and> parsed 5 (returned (parser_of (''GOTO a'' @ [CHR 0x0A] @ ''GOTO b'' @ [CHR 0x0A]
                    @ ''LABEL b'')))
       = Returns (returned (parsed 5 (returned (parser_of (''GOTO a'' @ [CHR 0x0A]
                    @ ''GOTO b'' @ [CHR 0x0A] @ ''LABEL b'')))))
   \<and> program sorted_list_of_fset 5
        (returned (parser_of (''GOTO a'' @ [CHR 0x0A] @ ''GOTO b'' @ [CHR 0x0A] @ ''LABEL b'')))
       = Exits (UndeclaredLabel ''a'')"
proof -
  let ?s1 = "''GOTO a'' @ [CHR 0x0A] @ ''GOTO b'' @ [CHR 0x0A] @ ''LABEL b'' @ [CHR 0x0A]
                 @ ''LABEL a''"
  let ?s2 = "''GOTO a'' @ [CHR 0x0A] @ ''GOTO b'' @ [CHR 0x0A] @ ''LABEL b''"
  let ?q1 = "returned (program sorted_list_of_fset 5 (returned (parser_of ?s1)))"
  let ?p2 = "returned (parsed 5 (returned (parser_of ?s2)))"
  note o = iteration_order_sorted
  have i1: "parser_of ?s1 = Returns (returned (parser_of ?s1))" by code_simp
  have i2: "parser_of ?s2 = Returns (returned (parser_of ?s2))" by code_simp
  have r1: "program sorted_list_of_fset 5 (returned (parser_of ?s1)) = Returns ?q1"
    by code_simp
  have g1: "labelsGotoed ?q1 = {|''a'', ''b''|}" by code_simp
  have r2: "parsed 5 (returned (parser_of ?s2)) = Returns ?p2" by code_simp
  have g2: "labelsGotoed ?p2 |-| labelsDeclared ?p2 = {|''a''|}" by code_simp
  from goto_labels_declared[OF o i1, of 5 ?q1] r1
  obtain ts where "tracks (Lexer_init ?s1) ts ?q1"
    "set (names_after GOTO ts) \<subseteq> set (names_after LABEL ts)" by blast
  with r1 g1 have a: "\<exists>q ts. program sorted_list_of_fset 5 (returned (parser_of ?s1)) = Returns q
         \<and> tracks (Lexer_init ?s1) ts q \<and> labelsGotoed q = {|''a'', ''b''|}
         \<and> set (names_after GOTO ts) \<subseteq> set (names_after LABEL ts)" by blast
  from goto_labels_declared[OF o i2, of 5 _ ?p2] r2
  obtain us where t: "tracks (Lexer_init ?s2) us ?p2"
    and bad: "\<not> set (names_after GOTO us) \<subseteq> set (names_after LABEL us) \<longrightarrow>
       (\<exists>l. l \<in> set (names_after GOTO us) \<and> l \<notin> set (names_after LABEL us)
            \<and> program sorted_list_of_fset 5 (returned (parser_of ?s2))
                = Exits (UndeclaredLabel l))"
    by blast
  from tracksD[OF t] have g: "labelsGotoed ?p2 = fset_of_list (names_after GOTO us)"
    and d: "labelsDeclared ?p2 = fset_of_list (names_after LABEL us)" by blast+
  have diff: "set (names_after GOTO us) - set (names_after LABEL us) = {''a''}"
  proof -
    from g have sg: "set (names_after GOTO us) = fset (labelsGotoed ?p2)"
      by (simp only: fset_of_list.rep_eq)
    from d have sd: "set (names_after LABEL us) = fset (labelsDeclared ?p2)"
      by (simp only: fset_of_list.rep_eq)
    have "fset (labelsGotoed ?p2 |-| labelsDeclared ?p2) = {''a''}" by (simp only: g2) simp
    then have "fset (labelsGotoed ?p2) - fset (labelsDeclared ?p2) = {''a''}"
      by (simp only: minus_fset.rep_eq)
    then show ?thesis by (simp only: sg sd)
  qed
  then have "\<not> set (names_after GOTO us) \<subseteq> set (names_after LABEL us)" by blast
  with bad obtain l where "l \<in> set (names_after GOTO us)" "l \<notin> set (names_after LABEL us)"
    and e: "program sorted_list_of_fset 5 (returned (parser_of ?s2)) = Exits (UndeclaredLabel l)"
    by blast
  with diff have "l = ''a''" by blast
  with e have b: "program sorted_list_of_fset 5 (returned (parser_of ?s2))
                    = Exits (UndeclaredLabel ''a'')" by simp
  from o i1 a i2 r2 b show ?thesis by blast
qed

text \<open>
  C2. After a compilation that returns, the header holds the declaration line of a name
  once when the name is in \<^verbatim>\<open>symbolsDeclared\<close> and not at all otherwise, hence at most
  once for every name. Every statement keeps this tie between the header and the set: LET
  and INPUT add the line only together with the name, and only when the name is new.
\<close>

theorem one_declaration_per_name:
  "iteration_order ord \<Longrightarrow>
     (parser_of src = Returns p0 \<longrightarrow> program ord n p0 = Returns p \<longrightarrow>
        count_list (header (emitter p)) (declLine x)
          = (if x |\<in>| symbolsDeclared p then 1 else 0)
        \<and> count_list (header (emitter p)) (declLine x) \<le> 1)
     \<and> (decl_inv p1 \<longrightarrow> statement n p1 = Returns p2 \<longrightarrow> decl_inv p2)"
proof -
  assume ord: "iteration_order ord"
  have a: "parser_of src = Returns p0 \<longrightarrow> program ord n p0 = Returns p \<longrightarrow>
        count_list (header (emitter p)) (declLine x)
          = (if x |\<in>| symbolsDeclared p then 1 else 0)
        \<and> count_list (header (emitter p)) (declLine x) \<le> 1"
  proof (intro impI)
    assume "parser_of src = Returns p0" and r: "program ord n p0 = Returns p"
    then have "decl_inv p0" by (simp add: parser_of_decl)
    with program_decl[OF ord] have "decl_inv p" using r by (rule preservesD)
    then show "count_list (header (emitter p)) (declLine x)
          = (if x |\<in>| symbolsDeclared p then 1 else 0)
        \<and> count_list (header (emitter p)) (declLine x) \<le> 1"
      by (simp add: decl_inv_def)
  qed
  have b: "decl_inv p1 \<longrightarrow> statement n p1 = Returns p2 \<longrightarrow> decl_inv p2"
    using preservesD[OF statement_decl] by blast
  from a b show ?thesis by blast
qed

lemma skipCurToken_path: "preserves (path_inv path) (skipCurToken r)"
  unfolding preserves_def path_inv_def
  by (auto dest: skipCurToken_frame)

lemma emit_path: "preserves (path_inv path) (emitter_emit t)"
  unfolding preserves_def path_inv_def emitter_emit_def by (auto simp: emit_def)

lemma emitLine_path: "preserves (path_inv path) (emitter_emitLine t)"
  unfolding preserves_def path_inv_def emitter_emitLine_def by (auto simp: emitLine_def)

lemma headerLine_path: "preserves (path_inv path) (emitter_headerLine t)"
  unfolding preserves_def path_inv_def emitter_headerLine_def by (auto simp: headerLine_def)

lemma sets_path:
  "preserves (path_inv path) (\<lambda>p. Returns (p\<lparr>labelsDeclared := f p\<rparr>))"
  "preserves (path_inv path) (\<lambda>p. Returns (p\<lparr>labelsGotoed := g p\<rparr>))"
  "preserves (path_inv path) (\<lambda>p. Returns (p\<lparr>symbolsDeclared := h p\<rparr>))"
  unfolding preserves_def path_inv_def by auto

lemmas path_rules =
  preserves_seq_Cons preserves_seq_Nil preserves_whileP skipCurToken_path emit_path
  emitLine_path headerLine_path sets_path preserves_Exits preserves_Returns preserves_if

lemma primary_path: "preserves (path_inv path) primary"
  by (rule preserves_ext[OF primary_def]) (intro path_rules)

lemma unary_path: "preserves (path_inv path) unary"
  by (rule preserves_ext[OF unary_def]) (intro path_rules primary_path)

lemma term'_path: "preserves (path_inv path) (term' n)"
  by (rule preserves_ext[OF term'_def]) (intro path_rules unary_path)

lemma expression_path: "preserves (path_inv path) (expression n)"
  by (rule preserves_ext[OF expression_def]) (intro path_rules term'_path)

lemma comparison_path: "preserves (path_inv path) (comparison n)"
  by (rule preserves_ext[OF comparison_def]) (intro path_rules expression_path)

lemma nl_path: "preserves (path_inv path) (nl n)"
  by (rule preserves_ext[OF nl_def]) (intro path_rules)

lemma statement_path: "preserves (path_inv path) (statement n)"
proof (induction n)
  case 0
  show ?case unfolding preserves_def by simp
next
  case (Suc n)
  show ?case
    by (rule preserves_ext[OF statement.simps(2)])
       (intro path_rules Suc.IH expression_path comparison_path nl_path)
qed

lemma parsed_path: "preserves (path_inv path) (parsed n)"
  by (rule preserves_ext[OF parsed_def]) (intro path_rules statement_path)

lemma program_path:
  assumes "iteration_order ord" and "program ord n p = Returns q"
  shows "fullPath (emitter q) = fullPath (emitter p)"
proof -
  from assms(2) obtain p' where p': "parsed n p = Returns p'" and q: "q = finish p'"
    by (auto simp: program_cases[OF assms(1)] split: outcome.splits if_splits)
  have "path_inv (fullPath (emitter p)) p" by (simp add: path_inv_def)
  with parsed_path have "path_inv (fullPath (emitter p)) p'" using p' by (rule preservesD)
  with q show ?thesis by (simp add: path_inv_def finish_def emitLine_def)
qed

lemma parser_of_path: "parser_of src = Returns p \<Longrightarrow> fullPath (emitter p) = ''out.c''"
  by (auto simp: parser_of_def Parser_init_def andThen_Returns_iff Emitter_init_def)

lemma main_cases:
  "main ord n argv w =
     (if length argv \<noteq> 2 then (Exits Usage, print ''Teeny Tiny Compiler'' w)
      else case files w (argv ! 1) of
        None \<Rightarrow> (Exits (CannotOpen (argv ! 1)), print ''Teeny Tiny Compiler'' w)
      | Some src \<Rightarrow>
          (case andThen (parser_of src) (program ord n) of
             Returns q \<Rightarrow>
               (Returns (),
                print ''Compiling completed.''
                  (writeFile (emitter q) (print ''Teeny Tiny Compiler'' w)))
           | Exits e \<Rightarrow> (Exits e, print ''Teeny Tiny Compiler'' w)
           | NoReturn \<Rightarrow> (NoReturn, print ''Teeny Tiny Compiler'' w)))"
  unfolding main_def Let_def parser_of_def
  by (auto simp: print_def split: option.splits outcome.splits)

lemma print_frame: "files (print t w) = files w" "written (print t w) = written w"
  by (simp_all add: print_def)

lemma writeFile_frame:
  "files (writeFile e w) = (files w)(fullPath e \<mapsto> outputText e)"
  "written (writeFile e w) = written w @ [(fullPath e, outputText e)]"
  by (simp_all add: writeFile_def)

lemma andThen_assoc: "andThen (andThen r f) g = andThen r (\<lambda>x. andThen (f x) g)"
  by (cases r) auto

lemma compile_parsed:
  "andThen (parser_of src) (program ord n) =
     andThen (andThen (parser_of src) (parsed n))
       (seq [(\<lambda>p. labels_loop (ord (labelsGotoed p)) p),
             emitter_emitLine (\<lambda>p. ''return 0;''),
             emitter_emitLine (\<lambda>p. ''}'')])"
  unfolding andThen_assoc by (cases "parser_of src") (simp_all add: program_parsed)

lemma print_y_parsed:
  "andThen (parser_of ''PRINT y'') (parsed 2) = Exits (ReferencedBeforeAssignment ''y'')"
  by code_simp

lemma print_y_aborts:
  assumes "2 \<le> n"
  shows "andThen (parser_of ''PRINT y'') (program ord n)
           = Exits (ReferencedBeforeAssignment ''y'')"
proof -
  have "andThen (parser_of ''PRINT y'') (parsed n) = andThen (parser_of ''PRINT y'') (parsed 2)"
    by (rule andThen_refines[OF _ parsed_refines[OF assms]]) (simp add: print_y_parsed)
  then show ?thesis by (simp add: compile_parsed print_y_parsed)
qed

subsection \<open>Enough fuel: every compilation has a result\<close>

lemma lexer_ok_init: "lexer_ok (Lexer_init src)"
  using Lexer_init_inv[of src]
  by (simp add: lexer_ok_def Lexer_init_def skipCurChar_source Lexer_NEWLINE_def)

lemma lexer_ok_skip:
  assumes "lexer_ok l"
  shows "lexer_ok (skipCurChar l)"
proof -
  from assms have "- 1 \<le> curPos l" by (simp add: lexer_ok_def lexer_inv_def)
  then have "lexer_inv (skipCurChar l)" by (rule skipCurChar_inv)
  with assms show ?thesis by (simp add: lexer_ok_def skipCurChar_source)
qed

lemma lexer_ok_last:
  assumes "lexer_ok l" and "int (length (source l)) = curPos l + 1"
  shows "curChar l = Lexer_NEWLINE"
proof -
  from assms have inv: "lexer_inv l" and ne: "source l \<noteq> []"
    and la: "last (source l) = CHR 0x0A"
    by (simp_all add: lexer_ok_def)
  from inv have "0 \<le> curPos l" by (simp add: lexer_inv_def)
  with assms(2) have n: "nat (curPos l) = length (source l) - 1" by linarith
  from la ne have "source l ! (length (source l) - 1) = CHR 0x0A"
    by (simp add: last_conv_nth)
  with lexer_inv_curChar[OF inv] assms(2) n show ?thesis
    by (simp add: Lexer_NEWLINE_def)
qed

lemma skipComment_loop_terminates:
  "lexer_ok l \<Longrightarrow> curPos l < int (length (source l)) \<Longrightarrow> \<exists>l'. skipComment_loop l = Some l'"
proof (induction "remaining l" arbitrary: l rule: less_induct)
  case less
  show ?case
  proof (cases "curChar l = Lexer_NEWLINE")
    case True
    then show ?thesis by (simp add: skipComment_loop.simps[of l])
  next
    case False
    with lexer_ok_last[OF less.prems(1)] have "int (length (source l)) \<noteq> curPos l + 1" by blast
    with less.prems(2) have lt: "curPos l + 1 < int (length (source l))" by simp
    have "\<exists>l'. skipComment_loop (skipCurChar l) = Some l'"
    proof (rule less.hyps)
      show "remaining (skipCurChar l) < remaining l"
        using lt by (simp add: remaining_def skipCurChar_source skipCurChar_curPos)
      show "lexer_ok (skipCurChar l)" using less.prems(1) by (rule lexer_ok_skip)
      show "curPos (skipCurChar l) < int (length (source (skipCurChar l)))"
        using lt by (simp add: skipCurChar_source skipCurChar_curPos)
    qed
    with False show ?thesis by (simp add: skipComment_loop.simps[of l])
  qed
qed

lemma string_loop_terminates:
  "lexer_ok l \<Longrightarrow> curPos l < int (length (source l)) \<Longrightarrow> \<exists>r. string_loop l = Some r"
proof (induction "remaining l" arbitrary: l rule: less_induct)
  case less
  show ?case
  proof (cases "curChar l \<noteq> Lexer_DOUBLEQUOTE \<and> \<not> (curChar l = [CHR 0x0D]
      \<or> curChar l = [CHR 0x0A] \<or> curChar l = [CHR 0x09] \<or> curChar l = [CHR 0x5C]
      \<or> curChar l = ''%'')")
    case False
    then show ?thesis by (auto simp: string_loop.simps[of l])
  next
    case True
    then have "curChar l \<noteq> Lexer_NEWLINE" by (simp add: Lexer_NEWLINE_def)
    with lexer_ok_last[OF less.prems(1)] have "int (length (source l)) \<noteq> curPos l + 1" by blast
    with less.prems(2) have lt: "curPos l + 1 < int (length (source l))" by simp
    have "\<exists>r. string_loop (skipCurChar l) = Some r"
    proof (rule less.hyps)
      show "remaining (skipCurChar l) < remaining l"
        using lt by (simp add: remaining_def skipCurChar_source skipCurChar_curPos)
      show "lexer_ok (skipCurChar l)" using less.prems(1) by (rule lexer_ok_skip)
      show "curPos (skipCurChar l) < int (length (source (skipCurChar l)))"
        using lt by (simp add: skipCurChar_source skipCurChar_curPos)
    qed
    with True show ?thesis by (simp add: string_loop.simps[of l])
  qed
qed

lemma lexer_ok_advanced_frame:
  "lexer_ok l \<Longrightarrow> advanced l l' \<Longrightarrow> lexer_inv l' \<Longrightarrow> lexer_ok l'"
  by (simp add: lexer_ok_def advanced_def)

lemma lexer_inv_not_EOF:
  "lexer_inv l \<Longrightarrow> curChar l \<noteq> Lexer_EOF \<Longrightarrow> curPos l < int (length (source l))"
  using lexer_inv_curChar[of l] by (auto split: if_splits)

lemma getToken_step:
  assumes "getToken l = Returns (t, l')"
  shows "\<exists>l2 l3. skipComment (skipWhitespace l) = Some l2 \<and> advanced l2 l3
           \<and> l' = skipCurChar l3 \<and> (kind t \<noteq> EOF \<longrightarrow> curChar l2 \<noteq> Lexer_EOF)"
proof -
  from assms obtain l2 where l2: "skipComment (skipWhitespace l) = Some l2"
    by (auto simp: getToken_def split: option.splits)
  have facts: "advanced l2 l2" "advanced l2 (skipCurChar l2)" "advanced l2 (digits_loop l2)"
    "advanced l2 (alnum_loop l2)"
    "advanced l2 (digits_loop (skipCurChar (digits_loop l2)))"
    "\<And>x. string_loop (skipCurChar l2) = Some (Inr x) \<Longrightarrow> advanced l2 x"
    by (blast intro: advanced_refl skipCurChar_advanced digits_loop_advanced alnum_loop_advanced
          string_loop_advanced advanced_trans)+
  have stepI: "\<And>x. advanced l2 x \<Longrightarrow> \<exists>l3. advanced l2 l3 \<and> skipCurChar x = skipCurChar l3"
    by blast
  from assms l2 have a: "\<exists>l3. advanced l2 l3 \<and> l' = skipCurChar l3"
    unfolding getToken_def
    by (auto simp: andThen_Returns_iff Let_def peek_def facts intro!: stepI
             split: if_splits option.splits sum.splits prod.splits)
  from assms l2 have b: "kind t \<noteq> EOF \<longrightarrow> curChar l2 \<noteq> Lexer_EOF"
    unfolding getToken_def
    by (auto simp: andThen_Returns_iff Let_def Lexer_EOF_def Lexer_NEWLINE_def
             split: if_splits option.splits sum.splits prod.splits)
  from l2 a b show ?thesis by blast
qed

lemma getToken_terminates:
  assumes ok: "lexer_ok l"
  shows "getToken l \<noteq> NoReturn"
proof -
  let ?l1 = "skipWhitespace l"
  from ok have inv1: "lexer_inv ?l1" by (simp add: lexer_ok_def skipWhitespace_inv)
  with ok have ok1: "lexer_ok ?l1"
    by (intro lexer_ok_advanced_frame[OF ok skipWhitespace_advanced])
  have "\<exists>l2. skipComment ?l1 = Some l2"
  proof (cases "curChar ?l1 = Lexer_HASHMARK")
    case True
    then have "curChar ?l1 \<noteq> Lexer_EOF" by (simp add: Lexer_HASHMARK_def Lexer_EOF_def)
    with inv1 have "curPos ?l1 < int (length (source ?l1))" by (rule lexer_inv_not_EOF)
    with ok1 True show ?thesis by (simp add: skipComment_def skipComment_loop_terminates)
  next
    case False
    then show ?thesis by (simp add: skipComment_def)
  qed
  then obtain l2 where l2: "skipComment ?l1 = Some l2" ..
  from skipComment_inv[OF l2 inv1] have inv2: "lexer_inv l2" .
  with ok1 skipComment_advanced[OF l2] have ok2: "lexer_ok l2"
    by (intro lexer_ok_advanced_frame[of ?l1 l2])
  have str: "string_loop (skipCurChar l2) \<noteq> None" if dq: "curChar l2 = Lexer_DOUBLEQUOTE"
  proof -
    from dq have "curChar l2 \<noteq> Lexer_EOF" "curChar l2 \<noteq> Lexer_NEWLINE"
      by (simp_all add: Lexer_DOUBLEQUOTE_def Lexer_EOF_def Lexer_NEWLINE_def)
    with inv2 lexer_ok_last[OF ok2] have "curPos l2 < int (length (source l2))"
      "int (length (source l2)) \<noteq> curPos l2 + 1"
      by (auto dest: lexer_inv_not_EOF)
    then have "curPos (skipCurChar l2) < int (length (source (skipCurChar l2)))"
      by (simp add: skipCurChar_source skipCurChar_curPos)
    with string_loop_terminates[OF lexer_ok_skip[OF ok2]] show ?thesis by auto
  qed
  show ?thesis
    unfolding getToken_def using l2 str
    by (auto simp: andThen_NoReturn_iff Let_def
          split: if_splits option.splits sum.splits prod.splits)
qed

lemma getToken_remaining:
  assumes ok: "lexer_ok l" and g: "getToken l = Returns (t, l')"
  shows "lexer_ok l' \<and> remaining l' + (if kind t \<noteq> EOF then 1 else 0) \<le> remaining l"
proof -
  from getToken_step[OF g] obtain l2 l3 where l2: "skipComment (skipWhitespace l) = Some l2"
    and a23: "advanced l2 l3" and l': "l' = skipCurChar l3"
    and k: "kind t \<noteq> EOF \<longrightarrow> curChar l2 \<noteq> Lexer_EOF"
    by blast
  from ok have inv: "lexer_inv l" by (simp add: lexer_ok_def)
  from ok have "- 1 \<le> curPos l" by (simp add: lexer_ok_def lexer_inv_def)
  with g have inv': "lexer_inv l'" by (rule getToken_inv)
  from getToken_advanced[OF g] have adv: "advanced l l'" by (simp add: advanced_def)
  with ok inv' have ok': "lexer_ok l'" by (intro lexer_ok_advanced_frame[of l l'])
  have a12: "advanced l l2"
    using skipWhitespace_advanced skipComment_advanced[OF l2] by (rule advanced_trans)
  have inv2: "lexer_inv l2"
    using skipComment_inv[OF l2 skipWhitespace_inv[OF inv]] .
  have src: "source l' = source l" "source l2 = source l"
    using adv a12 by (simp_all add: advanced_def)
  have pos: "curPos l \<le> curPos l2" "curPos l2 + 1 \<le> curPos l'"
    using a12 a23 l' by (simp_all add: advanced_def skipCurChar_curPos)
  have "remaining l' + (if kind t \<noteq> EOF then 1 else 0) \<le> remaining l"
  proof (cases "kind t \<noteq> EOF")
    case True
    with k inv2 have "curPos l2 < int (length (source l2))" by (auto dest: lexer_inv_not_EOF)
    with True src pos show ?thesis by (simp add: remaining_def)
  next
    case False
    with src pos show ?thesis by (simp add: remaining_def)
  qed
  with ok' show ?thesis by blast
qed

lemma finishesD:
  "finishes n f \<Longrightarrow> parser_ok p \<Longrightarrow> pending p < n \<Longrightarrow>
     f p \<noteq> NoReturn \<and> (\<forall>p'. f p = Returns p' \<longrightarrow> parser_ok p' \<and> pending p' \<le> pending p)"
  unfolding finishes_def by blast

lemma consumesD:
  "consumes n C f \<Longrightarrow> parser_ok p \<Longrightarrow> pending p < n \<Longrightarrow> C (curToken p) \<Longrightarrow>
     f p \<noteq> NoReturn \<and> (\<forall>p'. f p = Returns p' \<longrightarrow> parser_ok p' \<and> pending p' < pending p)"
  unfolding consumes_def by blast

lemma quietD:
  "quiet f \<Longrightarrow> f p \<noteq> NoReturn \<and> (\<forall>p'. f p = Returns p' \<longrightarrow>
     curToken p' = curToken p \<and> peekToken p' = peekToken p \<and> lexer p' = lexer p)"
  unfolding quiet_def by blast

lemma finishes_ext: "(\<And>p. f p = g p) \<Longrightarrow> finishes n g \<Longrightarrow> finishes n f"
  unfolding finishes_def by metis

lemma consumes_ext: "(\<And>p. f p = g p) \<Longrightarrow> consumes n C g \<Longrightarrow> consumes n C f"
  unfolding consumes_def by metis

lemma finishes_quiet:
  assumes "quiet f"
  shows "finishes n f"
  unfolding finishes_def
proof (intro allI impI conjI)
  fix p assume "parser_ok p \<and> pending p < n"
  show "f p \<noteq> NoReturn" using quietD[OF assms] by blast
next
  fix p p' assume ok: "parser_ok p \<and> pending p < n" and r: "f p = Returns p'"
  from quietD[OF assms, of p] r have "curToken p' = curToken p"
    "peekToken p' = peekToken p" "lexer p' = lexer p" by blast+
  with ok show "parser_ok p'" "pending p' \<le> pending p"
    by (simp_all add: parser_ok_def pending_def)
qed

lemma finishes_seq_Nil: "finishes n (seq [])"
  unfolding finishes_def by simp

lemma finishes_seq_Cons:
  assumes f: "finishes n f" and fs: "finishes n (seq fs)"
  shows "finishes n (seq (f # fs))"
  unfolding finishes_def
proof (intro allI impI)
  fix p assume ok: "parser_ok p \<and> pending p < n"
  note F = finishesD[OF f, of p]
  show "seq (f # fs) p \<noteq> NoReturn
     \<and> (\<forall>p'. seq (f # fs) p = Returns p' \<longrightarrow> parser_ok p' \<and> pending p' \<le> pending p)"
  proof (cases "f p")
    case (Returns p1)
    with F ok have ok1: "parser_ok p1" and le: "pending p1 \<le> pending p" by auto
    with ok have "pending p1 < n" by simp
    from finishesD[OF fs ok1 this] le Returns show ?thesis by auto
  next
    case (Exits e)
    then show ?thesis by simp
  next
    case NoReturn
    with F ok show ?thesis by simp
  qed
qed

lemma finishes_if:
  "finishes n f \<Longrightarrow> finishes n g \<Longrightarrow> finishes n (\<lambda>p. if b p then f p else g p)"
  unfolding finishes_def by metis

lemma finishes_Exits: "finishes n (\<lambda>p. Exits (e p))"
  unfolding finishes_def by simp

lemma consumes_Exits: "consumes n C (\<lambda>p. Exits (e p))"
  unfolding consumes_def by simp

lemma consumes_finishes:
  assumes "consumes n (\<lambda>t. True) f"
  shows "finishes n f"
  unfolding finishes_def
proof (intro allI impI)
  fix p assume ok: "parser_ok p \<and> pending p < n"
  with consumesD[OF assms, of p]
  show "f p \<noteq> NoReturn \<and> (\<forall>p'. f p = Returns p' \<longrightarrow> parser_ok p' \<and> pending p' \<le> pending p)"
    by (simp add: less_imp_le)
qed

lemma consumes_seq_Cons:
  assumes f: "consumes n C f" and fs: "finishes n (seq fs)"
  shows "consumes n C (seq (f # fs))"
  unfolding consumes_def
proof (intro allI impI)
  fix p assume ok: "parser_ok p \<and> pending p < n \<and> C (curToken p)"
  then have F: "f p \<noteq> NoReturn
      \<and> (\<forall>p'. f p = Returns p' \<longrightarrow> parser_ok p' \<and> pending p' < pending p)"
    using consumesD[OF f, of p] by blast
  show "seq (f # fs) p \<noteq> NoReturn
     \<and> (\<forall>p'. seq (f # fs) p = Returns p' \<longrightarrow> parser_ok p' \<and> pending p' < pending p)"
  proof (cases "f p")
    case (Returns p1)
    with F have ok1: "parser_ok p1" and lt: "pending p1 < pending p" by auto
    with ok have "pending p1 < n" by simp
    from finishesD[OF fs ok1 this] lt Returns show ?thesis by auto
  next
    case (Exits e)
    then show ?thesis by simp
  next
    case NoReturn
    with F show ?thesis by simp
  qed
qed

lemma consumes_seq_shift:
  assumes f: "consumes (Suc n) C f" and fs: "finishes n (seq fs)"
  shows "consumes (Suc n) C (seq (f # fs))"
  unfolding consumes_def
proof (intro allI impI)
  fix p assume ok: "parser_ok p \<and> pending p < Suc n \<and> C (curToken p)"
  then have F: "f p \<noteq> NoReturn
      \<and> (\<forall>p'. f p = Returns p' \<longrightarrow> parser_ok p' \<and> pending p' < pending p)"
    using consumesD[OF f, of p] by blast
  show "seq (f # fs) p \<noteq> NoReturn
     \<and> (\<forall>p'. seq (f # fs) p = Returns p' \<longrightarrow> parser_ok p' \<and> pending p' < pending p)"
  proof (cases "f p")
    case (Returns p1)
    with F have ok1: "parser_ok p1" and lt: "pending p1 < pending p" by auto
    with ok have "pending p1 < n" by simp
    from finishesD[OF fs ok1 this] lt Returns show ?thesis by auto
  next
    case (Exits e)
    then show ?thesis by simp
  next
    case NoReturn
    with F show ?thesis by simp
  qed
qed

lemma consumes_quiet_Cons:
  assumes g: "quiet g" and fs: "consumes n C (seq fs)"
  shows "consumes n C (seq (g # fs))"
  unfolding consumes_def
proof (intro allI impI)
  fix p assume ok: "parser_ok p \<and> pending p < n \<and> C (curToken p)"
  note G = quietD[OF g, of p]
  show "seq (g # fs) p \<noteq> NoReturn
     \<and> (\<forall>p'. seq (g # fs) p = Returns p' \<longrightarrow> parser_ok p' \<and> pending p' < pending p)"
  proof (cases "g p")
    case (Returns p1)
    with G have same: "curToken p1 = curToken p" "peekToken p1 = peekToken p"
      "lexer p1 = lexer p" by auto
    with ok have "parser_ok p1" "pending p1 < n" "C (curToken p1)" "pending p1 = pending p"
      by (simp_all add: parser_ok_def pending_def)
    with consumesD[OF fs, of p1] Returns show ?thesis by auto
  next
    case (Exits e)
    then show ?thesis by simp
  next
    case NoReturn
    with G show ?thesis by simp
  qed
qed

lemma consumes_if_kind:
  assumes "consumes n (\<lambda>t. C t \<and> kind t = K) f" and "consumes n C g"
  shows "consumes n C (\<lambda>p. if curTokeHasType K p then f p else g p)"
  unfolding consumes_def
proof (intro allI impI)
  fix p assume ok: "parser_ok p \<and> pending p < n \<and> C (curToken p)"
  show "(if curTokeHasType K p then f p else g p) \<noteq> NoReturn \<and>
         (\<forall>p'. (if curTokeHasType K p then f p else g p) = Returns p' \<longrightarrow>
               parser_ok p' \<and> pending p' < pending p)"
  proof (cases "curTokeHasType K p")
    case True
    then have "kind (curToken p) = K" by (simp add: curTokeHasType_def)
    with ok consumesD[OF assms(1), of p] True show ?thesis by simp
  next
    case False
    with ok consumesD[OF assms(2), of p] show ?thesis by simp
  qed
qed

lemma finishes_whileP:
  assumes c: "\<And>p. c p \<Longrightarrow> C (curToken p)" and b: "consumes n C b"
  shows "finishes n (whileP n c b)"
proof -
  have "k \<le> n \<Longrightarrow> parser_ok p \<Longrightarrow> pending p < k \<Longrightarrow>
          whileP k c b p \<noteq> NoReturn
          \<and> (\<forall>p'. whileP k c b p = Returns p' \<longrightarrow> parser_ok p' \<and> pending p' \<le> pending p)"
    for k p
  proof (induction k arbitrary: p)
    case 0
    then show ?case by simp
  next
    case (Suc k)
    show ?case
    proof (cases "c p")
      case False
      with Suc.prems show ?thesis by simp
    next
      case True
      from Suc.prems have "pending p < n" by simp
      from consumesD[OF b Suc.prems(2) this c[OF True]]
      have B: "b p \<noteq> NoReturn"
        "\<And>p'. b p = Returns p' \<Longrightarrow> parser_ok p' \<and> pending p' < pending p"
        by blast+
      show ?thesis
      proof (cases "b p")
        case (Returns p1)
        with B(2) have ok1: "parser_ok p1" and lt: "pending p1 < pending p" by auto
        with Suc.prems have "pending p1 < k" "k \<le> n" by simp_all
        from Suc.IH[OF this(2) ok1 this(1)] lt True Returns show ?thesis by auto
      next
        case (Exits e)
        with True show ?thesis by simp
      next
        case NoReturn
        with B(1) show ?thesis by simp
      qed
    qed
  qed
  then show ?thesis unfolding finishes_def by blast
qed

lemma skipCurToken_pending:
  assumes ok: "parser_ok p"
  shows "skipCurToken r p \<noteq> NoReturn
     \<and> (\<forall>p'. skipCurToken r p = Returns p' \<longrightarrow>
           parser_ok p'
           \<and> pending p' + (if kind (curToken p) \<noteq> EOF then 1 else 0) \<le> pending p)"
proof (cases "r \<noteq> None \<and> \<not> curTokeHasType (the r) p")
  case True
  then show ?thesis by (simp add: skipCurToken_def)
next
  case False
  from ok have lok: "lexer_ok (lexer p)" by (simp add: parser_ok_def)
  note T = getToken_terminates[OF lok]
  show ?thesis
  proof (cases "getToken (lexer p)")
    case (Returns x)
    obtain t l' where x: "x = (t, l')" by (cases x)
    from getToken_remaining[OF lok Returns[unfolded x]]
    have "lexer_ok l'" "remaining l' + (if kind t \<noteq> EOF then 1 else 0) \<le> remaining (lexer p)"
      by blast+
    with False Returns x show ?thesis
      by (auto simp: skipCurToken_def parser_ok_def pending_def)
  next
    case (Exits e)
    with False show ?thesis by (auto simp: skipCurToken_def)
  next
    case NoReturn
    with T show ?thesis by simp
  qed
qed

lemma skipCurToken_finishes: "finishes n (skipCurToken r)"
  unfolding finishes_def
proof (intro allI impI)
  fix p assume "parser_ok p \<and> pending p < n"
  then have "parser_ok p" by simp
  from skipCurToken_pending[OF this, of r]
  show "skipCurToken r p \<noteq> NoReturn \<and>
         (\<forall>p'. skipCurToken r p = Returns p' \<longrightarrow> parser_ok p' \<and> pending p' \<le> pending p)"
    by (auto split: if_splits)
qed

lemma skipCurToken_consumes:
  assumes "\<And>t. C t \<Longrightarrow> kind t \<noteq> EOF"
  shows "consumes n C (skipCurToken r)"
  unfolding consumes_def
proof (intro allI impI)
  fix p assume a: "parser_ok p \<and> pending p < n \<and> C (curToken p)"
  then have "parser_ok p" and "kind (curToken p) \<noteq> EOF" using assms by simp_all
  with skipCurToken_pending[OF this(1), of r]
  show "skipCurToken r p \<noteq> NoReturn \<and>
         (\<forall>p'. skipCurToken r p = Returns p' \<longrightarrow> parser_ok p' \<and> pending p' < pending p)"
    by auto
qed

lemma quiet_emit: "quiet (emitter_emit t)"
  unfolding quiet_def emitter_emit_def by simp

lemma finishes_emit: "finishes n (emitter_emit t)"
  by (rule finishes_quiet) (simp add: quiet_def emitter_emit_def)

lemma finishes_emitLine: "finishes n (emitter_emitLine t)"
  by (rule finishes_quiet) (simp add: quiet_def emitter_emitLine_def)

lemma finishes_headerLine: "finishes n (emitter_headerLine t)"
  by (rule finishes_quiet) (simp add: quiet_def emitter_headerLine_def)

lemma finishes_sets:
  "finishes n (\<lambda>p. Returns (p\<lparr>labelsDeclared := f p\<rparr>))"
  "finishes n (\<lambda>p. Returns (p\<lparr>labelsGotoed := g p\<rparr>))"
  "finishes n (\<lambda>p. Returns (p\<lparr>symbolsDeclared := h p\<rparr>))"
  by (rule finishes_quiet, simp add: quiet_def)+

lemma finishes_Returns: "finishes n Returns"
  by (rule finishes_quiet) (simp add: quiet_def)

lemmas finishes_rules =
  finishes_seq_Cons finishes_seq_Nil finishes_if finishes_Exits finishes_Returns
  skipCurToken_finishes finishes_emit finishes_emitLine finishes_headerLine finishes_sets

lemma primary_finishes: "finishes n primary"
  by (rule finishes_ext[OF primary_def]) (intro finishes_rules)

lemma unary_finishes: "finishes n unary"
  by (rule finishes_ext[OF unary_def]) (intro finishes_rules primary_finishes)

lemma operator_body_consumes:
  assumes "finishes n f"
  shows "consumes n (\<lambda>t. kind t \<noteq> EOF)
           (seq [emitter_emit (\<lambda>p. text' (curToken p)), skipCurToken None, f])"
  by (intro consumes_quiet_Cons quiet_emit consumes_seq_Cons skipCurToken_consumes
        finishes_seq_Cons finishes_seq_Nil assms)

lemma term'_finishes: "finishes n (term' n)"
proof (rule finishes_ext[OF term'_def], intro finishes_seq_Cons finishes_seq_Nil unary_finishes)
  show "finishes n (whileP n (\<lambda>p. curTokeHasType ASTERISK p \<or> curTokeHasType SLASH p)
          (seq [emitter_emit (\<lambda>p. text' (curToken p)), skipCurToken None, unary]))"
    by (rule finishes_whileP[where C = "\<lambda>t. kind t \<noteq> EOF"])
       (auto simp: curTokeHasType_def intro: operator_body_consumes unary_finishes)
qed

lemma expression_finishes: "finishes n (expression n)"
proof (rule finishes_ext[OF expression_def],
    intro finishes_seq_Cons finishes_seq_Nil term'_finishes)
  show "finishes n (whileP n (\<lambda>p. curTokeHasType PLUS p \<or> curTokeHasType MINUS p)
          (seq [emitter_emit (\<lambda>p. text' (curToken p)), skipCurToken None, term' n]))"
    by (rule finishes_whileP[where C = "\<lambda>t. kind t \<noteq> EOF"])
       (auto simp: curTokeHasType_def intro: operator_body_consumes term'_finishes)
qed

lemma comparison_finishes: "finishes n (comparison n)"
proof (rule finishes_ext[OF comparison_def],
    intro finishes_seq_Cons finishes_seq_Nil finishes_if finishes_Exits expression_finishes
      finishes_emit skipCurToken_finishes)
  show "finishes n (whileP n curTokenIsComparisonOperator
          (seq [emitter_emit (\<lambda>p. text' (curToken p)), skipCurToken None, expression n]))"
    by (rule finishes_whileP[where C = "\<lambda>t. kind t \<noteq> EOF"])
       (auto simp: curTokenIsComparisonOperator_def curTokeHasType_def
             intro: operator_body_consumes expression_finishes)
qed

lemma newlines_finishes:
  "finishes n (whileP n (curTokeHasType NEWLINE) (skipCurToken None))"
  by (rule finishes_whileP[where C = "\<lambda>t. kind t \<noteq> EOF"])
     (auto simp: curTokeHasType_def intro: skipCurToken_consumes)

lemma nl_finishes: "finishes n (nl n)"
  by (rule finishes_ext[OF nl_def])
     (intro finishes_seq_Cons finishes_seq_Nil skipCurToken_finishes newlines_finishes)

lemma statement_consumes: "consumes n (\<lambda>t. True) (statement n)"
proof (induction n)
  case 0
  show ?case unfolding consumes_def by simp
next
  case (Suc n)
  have body: "finishes n (whileP n c (statement n))" for c
    by (rule finishes_whileP[where C = "\<lambda>t. True"]) (simp_all add: Suc.IH)
  note fin = finishes_rules expression_finishes comparison_finishes nl_finishes body
  have first: "consumes (Suc n) (\<lambda>t. True \<and> kind t = K) (skipCurToken None)"
    if "K \<noteq> EOF" for K
    using that by (intro skipCurToken_consumes) simp
  show ?case
    apply (rule consumes_ext[OF statement.simps(2)])
    apply (rule consumes_seq_shift)
     apply (intro consumes_if_kind consumes_Exits)
           apply (rule consumes_seq_shift, rule first, simp, intro fin)
          apply (rule consumes_seq_shift, rule first, simp, intro fin)
         apply (rule consumes_seq_shift, rule first, simp, intro fin)
        apply (rule consumes_seq_shift, rule first, simp, intro fin)
       apply (rule consumes_seq_shift, rule first, simp, intro fin)
      apply (rule consumes_seq_shift, rule first, simp, intro fin)
     apply (rule consumes_seq_shift, rule first, simp, intro fin)
    apply (intro fin)
    done
qed

lemma parsed_finishes: "finishes n (parsed n)"
proof (rule finishes_ext[OF parsed_def],
    intro finishes_seq_Cons finishes_seq_Nil finishes_headerLine newlines_finishes)
  show "finishes n (whileP n (\<lambda>p. \<not> curTokeHasType EOF p) (statement n))"
    by (rule finishes_whileP[where C = "\<lambda>t. True"]) (simp_all add: statement_consumes)
qed

lemma remaining_init: "remaining (Lexer_init src) = Suc (length src)"
  by (simp add: remaining_def Lexer_init_def skipCurChar_source skipCurChar_curPos
        Lexer_NEWLINE_def)

lemma parser_of_finishes:
  "parser_of src \<noteq> NoReturn
   \<and> (\<forall>p. parser_of src = Returns p \<longrightarrow> parser_ok p \<and> pending p \<le> Suc (length src))"
proof -
  let ?l0 = "Lexer_init src"
  note ok0 = lexer_ok_init[of src]
  show ?thesis
  proof (cases "getToken ?l0")
    case NoReturn
    with getToken_terminates[OF ok0] show ?thesis by simp
  next
    case (Exits e)
    then show ?thesis by (simp add: parser_of_def Parser_init_def)
  next
    case (Returns x)
    obtain t1 l1 where x: "x = (t1, l1)" by (cases x)
    from getToken_remaining[OF ok0 Returns[unfolded x]]
    have ok1: "lexer_ok l1"
      and r1: "remaining l1 + (if kind t1 \<noteq> EOF then 1 else 0) \<le> remaining ?l0"
      by blast+
    show ?thesis
    proof (cases "getToken l1")
      case NoReturn
      with getToken_terminates[OF ok1] show ?thesis by simp
    next
      case (Exits e)
      with Returns x show ?thesis by (simp add: parser_of_def Parser_init_def)
    next
      case R2: (Returns y)
      obtain t2 l2 where y: "y = (t2, l2)" by (cases y)
      from getToken_remaining[OF ok1 R2[unfolded y]]
      have ok2: "lexer_ok l2"
        and r2: "remaining l2 + (if kind t2 \<noteq> EOF then 1 else 0) \<le> remaining l1"
        by blast+
      from Returns x R2 y ok2 r1 r2 show ?thesis
        by (auto simp: parser_of_def Parser_init_def parser_ok_def pending_def remaining_init)
    qed
  qed
qed

lemma compile_terminates:
  assumes "length src + 2 \<le> n"
  shows "andThen (parser_of src) (program ord n) \<noteq> NoReturn"
proof (cases "parser_of src")
  case NoReturn
  with parser_of_finishes[of src] show ?thesis by simp
next
  case (Exits e)
  then show ?thesis by simp
next
  case (Returns p)
  with parser_of_finishes[of src] have ok: "parser_ok p" and "pending p \<le> Suc (length src)"
    by blast+
  with assms have "pending p < n" by simp
  from finishesD[OF parsed_finishes ok this] have "parsed n p \<noteq> NoReturn" by blast
  then have "program ord n p \<noteq> NoReturn"
    by (cases "parsed n p")
       (auto simp: program_parsed andThen_NoReturn_iff emitter_emitLine_def
          labels_loop_not_NoReturn)
  with Returns show ?thesis by simp
qed

lemma main_terminates:
  assumes "files w (argv ! 1) = Some src" and "length src + 2 \<le> n"
  shows "fst (main ord n argv w) \<noteq> NoReturn"
  using assms compile_terminates[OF assms(2), of ord]
  by (auto simp: main_cases split: outcome.splits)

text \<open>
  C4. When \<^verbatim>\<open>main\<close> does not return (it exits with an error, or never ends), nothing is
  written and the files are as before; and with fuel above the length of the source it does
  end. When it returns, it has written once, to
  \<^verbatim>\<open>out.c\<close>, the text of the emitter that \<^verbatim>\<open>program\<close> returned. Whatever error the
  lexer or the parser exits with, \<^verbatim>\<open>main\<close> exits with it, having printed its banner only.
  Reading a variable: \<^verbatim>\<open>primary\<close> on an identifier that is not in \<^verbatim>\<open>symbolsDeclared\<close> exits
  with the error of a variable read before assignment, and so does a PRINT statement whose
  operand starts with such an identifier. For the source \<^verbatim>\<open>PRINT y\<close>, \<^verbatim>\<open>main\<close> exits with
  this error, with nothing written.
\<close>

theorem no_output_on_abort:
  "(fst (main ord n argv w) \<noteq> Returns () \<longrightarrow>
      written (snd (main ord n argv w)) = written w
      \<and> files (snd (main ord n argv w)) = files w)
   \<and> (iteration_order ord \<longrightarrow> fst (main ord n argv w) = Returns () \<longrightarrow>
        (\<exists>src q. files w (argv ! 1) = Some src
           \<and> andThen (parser_of src) (program ord n) = Returns q
           \<and> written (snd (main ord n argv w))
               = written w @ [(''out.c'', outputText (emitter q))]
           \<and> files (snd (main ord n argv w))
               = (files w)(''out.c'' \<mapsto> outputText (emitter q))))
   \<and> (2 \<le> n \<longrightarrow> files w path = Some ''PRINT y'' \<longrightarrow>
        main ord n [prog, path] w
          = (Exits (ReferencedBeforeAssignment ''y''), print ''Teeny Tiny Compiler'' w))
   \<and> (files w (argv ! 1) = Some src \<longrightarrow> length src + 2 \<le> n \<longrightarrow>
        fst (main ord n argv w) \<noteq> NoReturn)
   \<and> (length argv = 2 \<longrightarrow> files w (argv ! 1) = Some src \<longrightarrow>
        andThen (parser_of src) (program ord n) = Exits e \<longrightarrow>
          main ord n argv w = (Exits e, print ''Teeny Tiny Compiler'' w))
   \<and> (kind (curToken p) = IDENT \<longrightarrow> text' (curToken p) |\<notin>| symbolsDeclared p \<longrightarrow>
        primary p = Exits (ReferencedBeforeAssignment (text' (curToken p))))
   \<and> (kind (curToken p) = PRINT \<longrightarrow> kind (peekToken p) = IDENT \<longrightarrow>
        text' (peekToken p) |\<notin>| symbolsDeclared p \<longrightarrow> getToken (lexer p) = Returns y \<longrightarrow>
          statement (Suc n) p = Exits (ReferencedBeforeAssignment (text' (peekToken p))))"
proof -
  have a: "fst (main ord n argv w) \<noteq> Returns () \<longrightarrow>
      written (snd (main ord n argv w)) = written w
      \<and> files (snd (main ord n argv w)) = files w"
    by (auto simp: main_cases print_frame split: option.splits outcome.splits)
  have b: "iteration_order ord \<longrightarrow> fst (main ord n argv w) = Returns () \<longrightarrow>
        (\<exists>src q. files w (argv ! 1) = Some src
           \<and> andThen (parser_of src) (program ord n) = Returns q
           \<and> written (snd (main ord n argv w))
               = written w @ [(''out.c'', outputText (emitter q))]
           \<and> files (snd (main ord n argv w))
               = (files w)(''out.c'' \<mapsto> outputText (emitter q)))"
  proof (intro impI)
    assume ord: "iteration_order ord" and r: "fst (main ord n argv w) = Returns ()"
    from r obtain src q where src: "files w (argv ! 1) = Some src"
      and q: "andThen (parser_of src) (program ord n) = Returns q"
      by (auto simp: main_cases split: option.splits outcome.splits if_splits)
    from q obtain p0 where p0: "parser_of src = Returns p0" and pq: "program ord n p0 = Returns q"
      by (auto simp: andThen_Returns_iff)
    from program_path[OF ord pq] parser_of_path[OF p0]
    have path: "fullPath (emitter q) = ''out.c''" by simp
    from r src q path show "\<exists>src q. files w (argv ! 1) = Some src
           \<and> andThen (parser_of src) (program ord n) = Returns q
           \<and> written (snd (main ord n argv w))
               = written w @ [(''out.c'', outputText (emitter q))]
           \<and> files (snd (main ord n argv w))
               = (files w)(''out.c'' \<mapsto> outputText (emitter q))"
      by (auto simp: main_cases print_frame writeFile_frame split: if_splits)
  qed
  have c: "2 \<le> n \<longrightarrow> files w path = Some ''PRINT y'' \<longrightarrow>
        main ord n [prog, path] w
          = (Exits (ReferencedBeforeAssignment ''y''), print ''Teeny Tiny Compiler'' w)"
    by (simp add: main_cases print_y_aborts)
  have d: "files w (argv ! 1) = Some src \<longrightarrow> length src + 2 \<le> n \<longrightarrow>
        fst (main ord n argv w) \<noteq> NoReturn"
    using main_terminates by blast
  have e: "length argv = 2 \<longrightarrow> files w (argv ! 1) = Some src \<longrightarrow>
        andThen (parser_of src) (program ord n) = Exits e \<longrightarrow>
          main ord n argv w = (Exits e, print ''Teeny Tiny Compiler'' w)"
    by (simp add: main_cases)
  have f: "kind (curToken p) = IDENT \<longrightarrow> text' (curToken p) |\<notin>| symbolsDeclared p \<longrightarrow>
        primary p = Exits (ReferencedBeforeAssignment (text' (curToken p)))"
    by (simp add: primary_def curTokeHasType_def)
  have g: "kind (curToken p) = PRINT \<longrightarrow> kind (peekToken p) = IDENT \<longrightarrow>
        text' (peekToken p) |\<notin>| symbolsDeclared p \<longrightarrow> getToken (lexer p) = Returns y \<longrightarrow>
          statement (Suc n) p = Exits (ReferencedBeforeAssignment (text' (peekToken p)))"
    by (cases y)
       (simp add: curTokeHasType_def skipCurToken_def emitter_emit_def expression_def
          term'_def unary_def primary_def)
  from a b c d e f g show ?thesis by blast
qed

lemma program_agree:
  assumes o1: "iteration_order ord1" and o2: "iteration_order ord2"
    and r1: "program ord1 n1 p = Returns q" and r2: "program ord2 n2 p \<noteq> NoReturn"
  shows "program ord2 n2 p = Returns q"
proof -
  from r1 obtain p' where p': "parsed n1 p = Returns p'"
    and sub: "labelsGotoed p' |\<subseteq>| labelsDeclared p'" and q: "q = finish p'"
    by (auto simp: program_cases[OF o1] split: outcome.splits if_splits)
  from r2 have nr: "parsed n2 p \<noteq> NoReturn"
    by (auto simp: program_cases[OF o2] split: outcome.splits)
  have "parsed (max n1 n2) p = parsed n1 p"
    by (rule refinesD[OF parsed_refines]) (simp_all add: p')
  moreover have "parsed (max n1 n2) p = parsed n2 p"
    by (rule refinesD[OF parsed_refines]) (simp_all add: nr)
  ultimately have "parsed n2 p = Returns p'" using p' by simp
  with sub q show ?thesis by (simp add: program_cases[OF o2])
qed

lemma compile_agree:
  assumes o1: "iteration_order ord1" and o2: "iteration_order ord2"
    and r1: "andThen (parser_of src) (program ord1 n1) = Returns q"
    and r2: "andThen (parser_of src) (program ord2 n2) \<noteq> NoReturn"
  shows "andThen (parser_of src) (program ord2 n2) = Returns q"
proof -
  from r1 obtain p0 where p0: "parser_of src = Returns p0" and pq: "program ord1 n1 p0 = Returns q"
    by (auto simp: andThen_Returns_iff)
  from r2 p0 have "program ord2 n2 p0 \<noteq> NoReturn" by simp
  from program_agree[OF o1 o2 pq this] p0 show ?thesis by simp
qed

lemma main_agree:
  "iteration_order ord1 \<Longrightarrow> iteration_order ord2 \<Longrightarrow>
   files w1 (argv ! 1) = files w2 (argv ! 1) \<Longrightarrow>
   main ord1 n1 argv w1 = (Returns (), w1') \<Longrightarrow>
   main ord2 n2 argv w2 = (r2, w2') \<Longrightarrow> r2 \<noteq> NoReturn \<Longrightarrow>
     r2 = Returns ()
     \<and> (\<exists>text. written w1' = written w1 @ [(''out.c'', text)]
               \<and> written w2' = written w2 @ [(''out.c'', text)]
               \<and> files w1' ''out.c'' = Some text \<and> files w2' ''out.c'' = Some text)"
proof -
  assume o1: "iteration_order ord1" and o2: "iteration_order ord2"
    and src: "files w1 (argv ! 1) = files w2 (argv ! 1)"
    and m1: "main ord1 n1 argv w1 = (Returns (), w1')"
    and m2: "main ord2 n2 argv w2 = (r2, w2')" and nr: "r2 \<noteq> NoReturn"
  from m1 have len: "length argv = 2"
    by (auto simp: main_cases split: if_splits)
  from m1 len obtain s q where s: "files w1 (argv ! 1) = Some s"
    and q: "andThen (parser_of s) (program ord1 n1) = Returns q"
    and w1': "w1' = print ''Compiling completed.''
                 (writeFile (emitter q) (print ''Teeny Tiny Compiler'' w1))"
    by (auto simp: main_cases split: option.splits outcome.splits)
  from s src have s2: "files w2 (argv ! 1) = Some s" by simp
  from m2 len s2 nr have "andThen (parser_of s) (program ord2 n2) \<noteq> NoReturn"
    by (auto simp: main_cases split: outcome.splits)
  from compile_agree[OF o1 o2 q this]
  have q2: "andThen (parser_of s) (program ord2 n2) = Returns q" .
  with m2 len s2 have r2: "r2 = Returns ()"
    and w2': "w2' = print ''Compiling completed.''
                 (writeFile (emitter q) (print ''Teeny Tiny Compiler'' w2))"
    by (auto simp: main_cases)
  from q obtain p0 where p0: "parser_of s = Returns p0" and pq: "program ord1 n1 p0 = Returns q"
    by (auto simp: andThen_Returns_iff)
  from program_path[OF o1 pq] parser_of_path[OF p0]
  have path: "fullPath (emitter q) = ''out.c''" by simp
  from r2 w1' w2' path show ?thesis
    by (intro conjI exI[of _ "outputText (emitter q)"])
       (simp_all add: print_frame writeFile_frame)
qed


text \<open>
  C7. Two runs of \<^verbatim>\<open>main\<close> on the same source, whatever the order in which Python iterates
  over the set of labels, whatever the files and the writes before, and whatever the fuel
  above the length of the source: both runs have a result, one returns exactly when the
  other does, and then both write the same text to \<^verbatim>\<open>out.c\<close>.
\<close>

theorem compilation_deterministic:
  "iteration_order ord1 \<Longrightarrow> iteration_order ord2 \<Longrightarrow>
   files w1 (argv ! 1) = Some src \<Longrightarrow> files w2 (argv ! 1) = Some src \<Longrightarrow>
   length src + 2 \<le> n1 \<Longrightarrow> length src + 2 \<le> n2 \<Longrightarrow>
     fst (main ord1 n1 argv w1) \<noteq> NoReturn \<and> fst (main ord2 n2 argv w2) \<noteq> NoReturn
     \<and> (fst (main ord1 n1 argv w1) = Returns ()) = (fst (main ord2 n2 argv w2) = Returns ())
     \<and> (fst (main ord1 n1 argv w1) = Returns () \<longrightarrow>
          (\<exists>text. written (snd (main ord1 n1 argv w1)) = written w1 @ [(''out.c'', text)]
                 \<and> written (snd (main ord2 n2 argv w2)) = written w2 @ [(''out.c'', text)]
                 \<and> files (snd (main ord1 n1 argv w1)) ''out.c'' = Some text
                 \<and> files (snd (main ord2 n2 argv w2)) ''out.c'' = Some text))"
proof -
  assume o1: "iteration_order ord1" and o2: "iteration_order ord2"
    and s1: "files w1 (argv ! 1) = Some src" and s2: "files w2 (argv ! 1) = Some src"
    and n1: "length src + 2 \<le> n1" and n2: "length src + 2 \<le> n2"
  from s1 s2 have same: "files w1 (argv ! 1) = files w2 (argv ! 1)" by simp
  have t1: "fst (main ord1 n1 argv w1) \<noteq> NoReturn" using s1 n1 by (rule main_terminates)
  have t2: "fst (main ord2 n2 argv w2) \<noteq> NoReturn" using s2 n2 by (rule main_terminates)
  have m1: "main ord1 n1 argv w1 = (fst (main ord1 n1 argv w1), snd (main ord1 n1 argv w1))"
    and m2: "main ord2 n2 argv w2 = (fst (main ord2 n2 argv w2), snd (main ord2 n2 argv w2))"
    by simp_all
  have fwd: "fst (main ord2 n2 argv w2) = Returns ()
      \<and> (\<exists>text. written (snd (main ord1 n1 argv w1)) = written w1 @ [(''out.c'', text)]
                 \<and> written (snd (main ord2 n2 argv w2)) = written w2 @ [(''out.c'', text)]
                 \<and> files (snd (main ord1 n1 argv w1)) ''out.c'' = Some text
                 \<and> files (snd (main ord2 n2 argv w2)) ''out.c'' = Some text)"
    if r: "fst (main ord1 n1 argv w1) = Returns ()"
  proof -
    from r have "main ord1 n1 argv w1 = (Returns (), snd (main ord1 n1 argv w1))"
      by (simp add: prod_eq_iff)
    from main_agree[OF o1 o2 same this m2 t2] show ?thesis .
  qed
  have bwd: "fst (main ord1 n1 argv w1) = Returns ()"
    if r: "fst (main ord2 n2 argv w2) = Returns ()"
  proof -
    from r have "main ord2 n2 argv w2 = (Returns (), snd (main ord2 n2 argv w2))"
      by (simp add: prod_eq_iff)
    from main_agree[OF o2 o1 same[symmetric] this m1 t1] show ?thesis by blast
  qed
  from t1 t2 fwd bwd show ?thesis by blast
qed

lemma iteration_order_rev_sorted: "iteration_order (rev \<circ> sorted_list_of_fset)"
  by (simp add: iteration_order_def)

theorem compilation_deterministic_witness:
  "iteration_order sorted_list_of_fset \<and> iteration_order (rev \<circ> sorted_list_of_fset)
   \<and> files \<lparr>files = [''a.tt'' \<mapsto> ''LET x = x + 1''], written = [], stdout = []\<rparr>
        ([''teenytiny.py'', ''a.tt''] ! 1) = Some ''LET x = x + 1''
   \<and> files \<lparr>files = [''a.tt'' \<mapsto> ''LET x = x + 1'', ''out.c'' \<mapsto> ''old''],
             written = [(''out.c'', ''old'')], stdout = []\<rparr>
        ([''teenytiny.py'', ''a.tt''] ! 1) = Some ''LET x = x + 1''
   \<and> length ''LET x = x + 1'' + 2 \<le> (15::nat) \<and> length ''LET x = x + 1'' + 2 \<le> (20::nat)
   \<and> fst (main sorted_list_of_fset 15 [''teenytiny.py'', ''a.tt'']
           \<lparr>files = [''a.tt'' \<mapsto> ''LET x = x + 1''], written = [], stdout = []\<rparr>)
       = Returns ()
   \<and> fst (main (rev \<circ> sorted_list_of_fset) 20 [''teenytiny.py'', ''a.tt'']
           \<lparr>files = [''a.tt'' \<mapsto> ''LET x = x + 1'', ''out.c'' \<mapsto> ''old''],
            written = [(''out.c'', ''old'')], stdout = []\<rparr>)
       = Returns ()
   \<and> (\<exists>text.
         written (snd (main sorted_list_of_fset 15 [''teenytiny.py'', ''a.tt'']
           \<lparr>files = [''a.tt'' \<mapsto> ''LET x = x + 1''], written = [], stdout = []\<rparr>))
           = [(''out.c'', text)]
       \<and> written (snd (main (rev \<circ> sorted_list_of_fset) 20 [''teenytiny.py'', ''a.tt'']
           \<lparr>files = [''a.tt'' \<mapsto> ''LET x = x + 1'', ''out.c'' \<mapsto> ''old''],
            written = [(''out.c'', ''old'')], stdout = []\<rparr>))
           = [(''out.c'', ''old''), (''out.c'', text)])"
proof -
  let ?wa = "\<lparr>files = [''a.tt'' \<mapsto> ''LET x = x + 1''], written = [], stdout = []\<rparr>"
  let ?wb = "\<lparr>files = [''a.tt'' \<mapsto> ''LET x = x + 1'', ''out.c'' \<mapsto> ''old''],
               written = [(''out.c'', ''old'')], stdout = []\<rparr>"
  let ?argv = "[''teenytiny.py'', ''a.tt'']"
  note o1 = iteration_order_sorted and o2 = iteration_order_rev_sorted
  have sa: "files ?wa (?argv ! 1) = Some ''LET x = x + 1''" by simp
  have sb: "files ?wb (?argv ! 1) = Some ''LET x = x + 1''" by simp
  have na: "length ''LET x = x + 1'' + 2 \<le> (15::nat)" by simp
  have nb: "length ''LET x = x + 1'' + 2 \<le> (20::nat)" by simp
  have r1: "fst (main sorted_list_of_fset 15 ?argv ?wa) = Returns ()" by code_simp
  note t = compilation_deterministic[OF o1 o2 sa sb na nb]
  from t r1 have r2: "fst (main (rev \<circ> sorted_list_of_fset) 20 ?argv ?wb) = Returns ()"
    by blast
  from t r1
  have "\<exists>text.
         written (snd (main sorted_list_of_fset 15 ?argv ?wa)) = written ?wa @ [(''out.c'', text)]
       \<and> written (snd (main (rev \<circ> sorted_list_of_fset) 20 ?argv ?wb))
           = written ?wb @ [(''out.c'', text)]"
    by blast
  then have "\<exists>text.
         written (snd (main sorted_list_of_fset 15 ?argv ?wa)) = [(''out.c'', text)]
       \<and> written (snd (main (rev \<circ> sorted_list_of_fset) 20 ?argv ?wb))
           = [(''out.c'', ''old''), (''out.c'', text)]"
    by simp
  with o1 o2 sa sb na nb r1 r2 show ?thesis by blast
qed

theorem no_output_on_abort_witness:
  "fst (main sorted_list_of_fset 9 [''teenytiny.py'', ''a.tt'']
          \<lparr>files = [''a.tt'' \<mapsto> ''PRINT y''], written = [], stdout = []\<rparr>) \<noteq> Returns ()
   \<and> written (snd (main sorted_list_of_fset 9 [''teenytiny.py'', ''a.tt'']
          \<lparr>files = [''a.tt'' \<mapsto> ''PRINT y''], written = [], stdout = []\<rparr>)) = []
   \<and> (2::nat) \<le> 9
   \<and> main sorted_list_of_fset 9 [''teenytiny.py'', ''a.tt'']
          \<lparr>files = [''a.tt'' \<mapsto> ''PRINT y''], written = [], stdout = []\<rparr>
       = (Exits (ReferencedBeforeAssignment ''y''),
          \<lparr>files = [''a.tt'' \<mapsto> ''PRINT y''], written = [],
           stdout = [''Teeny Tiny Compiler'']\<rparr>)
   \<and> length ''PRINT y'' + 2 \<le> (9::nat)
   \<and> fst (main sorted_list_of_fset 9 [''teenytiny.py'', ''a.tt'']
          \<lparr>files = [''a.tt'' \<mapsto> ''PRINT y''], written = [], stdout = []\<rparr>) \<noteq> NoReturn
   \<and> iteration_order sorted_list_of_fset
   \<and> fst (main sorted_list_of_fset 9 [''teenytiny.py'', ''a.tt'']
          \<lparr>files = [''a.tt'' \<mapsto> ''PRINT 1''], written = [], stdout = []\<rparr>) = Returns ()
   \<and> (\<exists>q::Parser. written (snd (main sorted_list_of_fset 9 [''teenytiny.py'', ''a.tt'']
          \<lparr>files = [''a.tt'' \<mapsto> ''PRINT 1''], written = [], stdout = []\<rparr>))
            = [(''out.c'', outputText (emitter q))])
   \<and> length [''teenytiny.py'', ''a.tt''] = 2
   \<and> andThen (parser_of (''LET a = 1'' @ [CHR 0x0A] @ ''PRINT a + b''))
        (program sorted_list_of_fset 9) = Exits (ReferencedBeforeAssignment ''b'')
   \<and> main sorted_list_of_fset 9 [''teenytiny.py'', ''a.tt'']
          \<lparr>files = [''a.tt'' \<mapsto> ''LET a = 1'' @ [CHR 0x0A] @ ''PRINT a + b''],
           written = [], stdout = []\<rparr>
       = (Exits (ReferencedBeforeAssignment ''b''),
          \<lparr>files = [''a.tt'' \<mapsto> ''LET a = 1'' @ [CHR 0x0A] @ ''PRINT a + b''],
           written = [], stdout = [''Teeny Tiny Compiler'']\<rparr>)
   \<and> kind (curToken (returned (parser_of ''PRINT z''))) = PRINT
   \<and> kind (peekToken (returned (parser_of ''PRINT z''))) = IDENT
   \<and> text' (peekToken (returned (parser_of ''PRINT z'')))
        |\<notin>| symbolsDeclared (returned (parser_of ''PRINT z''))
   \<and> getToken (lexer (returned (parser_of ''PRINT z'')))
        = Returns (returned (getToken (lexer (returned (parser_of ''PRINT z'')))))
   \<and> statement (Suc 0) (returned (parser_of ''PRINT z''))
        = Exits (ReferencedBeforeAssignment ''z'')
   \<and> kind (curToken (returned (parser_of ''v1''))) = IDENT
   \<and> text' (curToken (returned (parser_of ''v1'')))
        |\<notin>| symbolsDeclared (returned (parser_of ''v1''))
   \<and> primary (returned (parser_of ''v1'')) = Exits (ReferencedBeforeAssignment ''v1'')"
proof -
  let ?w1 = "\<lparr>files = [''a.tt'' \<mapsto> ''PRINT y''], written = [], stdout = []\<rparr>"
  let ?w2 = "\<lparr>files = [''a.tt'' \<mapsto> ''PRINT 1''], written = [], stdout = []\<rparr>"
  let ?s3 = "''LET a = 1'' @ [CHR 0x0A] @ ''PRINT a + b''"
  let ?w3 = "\<lparr>files = [''a.tt'' \<mapsto> ?s3], written = [], stdout = []\<rparr>"
  let ?argv = "[''teenytiny.py'', ''a.tt'']"
  let ?pz = "returned (parser_of ''PRINT z'')"
  let ?pv = "returned (parser_of ''v1'')"
  have f: "files ?w1 ''a.tt'' = Some ''PRINT y''" by simp
  have g: "files ?w1 (?argv ! 1) = Some ''PRINT y''" by simp
  have le: "(2::nat) \<le> 9" by simp
  have len: "length ''PRINT y'' + 2 \<le> (9::nat)" by simp
  have r2: "fst (main sorted_list_of_fset 9 ?argv ?w2) = Returns ()" by code_simp
  note t1 = no_output_on_abort[of sorted_list_of_fset 9 ?argv ?w1 "''a.tt''" "''teenytiny.py''"
      "''PRINT y''"]
  note t2 = no_output_on_abort[of sorted_list_of_fset 9 ?argv ?w2]
  from t1 le f have m: "main sorted_list_of_fset 9 ?argv ?w1
       = (Exits (ReferencedBeforeAssignment ''y''),
          \<lparr>files = [''a.tt'' \<mapsto> ''PRINT y''], written = [],
           stdout = [''Teeny Tiny Compiler'']\<rparr>)"
    by (simp add: print_def)
  then have n1: "fst (main sorted_list_of_fset 9 ?argv ?w1) \<noteq> Returns ()" by simp
  from m have w: "written (snd (main sorted_list_of_fset 9 ?argv ?w1)) = []" by simp
  from t1 have "files ?w1 (?argv ! 1) = Some ''PRINT y'' \<longrightarrow> length ''PRINT y'' + 2 \<le> 9 \<longrightarrow>
        fst (main sorted_list_of_fset 9 ?argv ?w1) \<noteq> NoReturn"
    by (rule conjunct1[OF conjunct2[OF conjunct2[OF conjunct2]]])
  from mp[OF mp[OF this g] len]
  have nr: "fst (main sorted_list_of_fset 9 ?argv ?w1) \<noteq> NoReturn" .
  from t2 have "iteration_order sorted_list_of_fset \<longrightarrow>
      fst (main sorted_list_of_fset 9 ?argv ?w2) = Returns () \<longrightarrow>
        (\<exists>src q. files ?w2 (?argv ! 1) = Some src
           \<and> andThen (parser_of src) (program sorted_list_of_fset 9) = Returns q
           \<and> written (snd (main sorted_list_of_fset 9 ?argv ?w2))
               = written ?w2 @ [(''out.c'', outputText (emitter q))]
           \<and> files (snd (main sorted_list_of_fset 9 ?argv ?w2))
               = (files ?w2)(''out.c'' \<mapsto> outputText (emitter q)))"
    by (rule conjunct1[OF conjunct2])
  from mp[OF mp[OF this iteration_order_sorted] r2]
  have e: "\<exists>q::Parser. written (snd (main sorted_list_of_fset 9 ?argv ?w2))
            = [(''out.c'', outputText (emitter q))]"
    by auto
  have l2: "length ?argv = 2" by simp
  have f3: "files ?w3 (?argv ! 1) = Some ?s3" by simp
  have x3: "andThen (parser_of ?s3) (program sorted_list_of_fset 9)
              = Exits (ReferencedBeforeAssignment ''b'')" by code_simp
  note t3 = no_output_on_abort[where ord = sorted_list_of_fset and n = 9 and argv = "?argv"
      and w = "?w3" and src = "?s3" and e = "ReferencedBeforeAssignment ''b''"]
  from t3 have "length ?argv = 2 \<longrightarrow> files ?w3 (?argv ! 1) = Some ?s3 \<longrightarrow>
        andThen (parser_of ?s3) (program sorted_list_of_fset 9)
          = Exits (ReferencedBeforeAssignment ''b'') \<longrightarrow>
        main sorted_list_of_fset 9 ?argv ?w3
          = (Exits (ReferencedBeforeAssignment ''b''), print ''Teeny Tiny Compiler'' ?w3)"
    by (rule conjunct1[OF conjunct2[OF conjunct2[OF conjunct2[OF conjunct2]]]])
  from mp[OF mp[OF mp[OF this l2] f3] x3]
  have m3: "main sorted_list_of_fset 9 ?argv ?w3
       = (Exits (ReferencedBeforeAssignment ''b''),
          \<lparr>files = [''a.tt'' \<mapsto> ?s3], written = [], stdout = [''Teeny Tiny Compiler'']\<rparr>)"
    by (simp add: print_def)
  have z1: "kind (curToken ?pz) = PRINT" by code_simp
  have z2: "kind (peekToken ?pz) = IDENT" by code_simp
  have z3: "text' (peekToken ?pz) |\<notin>| symbolsDeclared ?pz" by code_simp
  have z4: "getToken (lexer ?pz) = Returns (returned (getToken (lexer ?pz)))" by code_simp
  have z5: "text' (peekToken ?pz) = ''z''" by code_simp
  note tz = no_output_on_abort[where p = "?pz" and y = "returned (getToken (lexer ?pz))"
      and n = 0]
  from tz have "kind (curToken ?pz) = PRINT \<longrightarrow> kind (peekToken ?pz) = IDENT \<longrightarrow>
        text' (peekToken ?pz) |\<notin>| symbolsDeclared ?pz \<longrightarrow>
        getToken (lexer ?pz) = Returns (returned (getToken (lexer ?pz))) \<longrightarrow>
          statement (Suc 0) ?pz = Exits (ReferencedBeforeAssignment (text' (peekToken ?pz)))"
    by (rule conjunct2[OF conjunct2[OF conjunct2[OF conjunct2[OF conjunct2[OF conjunct2]]]]])
  from mp[OF mp[OF mp[OF mp[OF this z1] z2] z3] z4]
  have z: "statement (Suc 0) ?pz = Exits (ReferencedBeforeAssignment ''z'')"
    by (simp only: z5)
  have v1: "kind (curToken ?pv) = IDENT" by code_simp
  have v2: "text' (curToken ?pv) |\<notin>| symbolsDeclared ?pv" by code_simp
  have v3: "text' (curToken ?pv) = ''v1''" by code_simp
  note tv = no_output_on_abort[where p = "?pv"]
  from tv have "kind (curToken ?pv) = IDENT \<longrightarrow> text' (curToken ?pv) |\<notin>| symbolsDeclared ?pv \<longrightarrow>
        primary ?pv = Exits (ReferencedBeforeAssignment (text' (curToken ?pv)))"
    by (rule conjunct1[OF conjunct2[OF conjunct2[OF conjunct2[OF conjunct2[OF conjunct2]]]]])
  from mp[OF mp[OF this v1] v2]
  have v: "primary ?pv = Exits (ReferencedBeforeAssignment ''v1'')" by (simp only: v3)
  from n1 w le m len nr iteration_order_sorted r2 e l2 x3 m3 z1 z2 z3 z4 z v1 v2 v
  show ?thesis by blast
qed

theorem one_declaration_per_name_witness:
  "iteration_order sorted_list_of_fset
   \<and> parser_of (''LET x = 1'' @ [CHR 0x0A] @ ''LET x = 2'' @ [CHR 0x0A] @ ''INPUT x'')
       = Returns (returned (parser_of
           (''LET x = 1'' @ [CHR 0x0A] @ ''LET x = 2'' @ [CHR 0x0A] @ ''INPUT x'')))
   \<and> program sorted_list_of_fset 4 (returned (parser_of
           (''LET x = 1'' @ [CHR 0x0A] @ ''LET x = 2'' @ [CHR 0x0A] @ ''INPUT x'')))
       = Returns (returned (program sorted_list_of_fset 4 (returned (parser_of
           (''LET x = 1'' @ [CHR 0x0A] @ ''LET x = 2'' @ [CHR 0x0A] @ ''INPUT x'')))))
   \<and> header (emitter (returned (program sorted_list_of_fset 4 (returned (parser_of
           (''LET x = 1'' @ [CHR 0x0A] @ ''LET x = 2'' @ [CHR 0x0A] @ ''INPUT x''))))))
       = [''#include <stdio.h>'', ''int main(void){'', ''float x;'']
   \<and> count_list (header (emitter (returned (program sorted_list_of_fset 4 (returned (parser_of
           (''LET x = 1'' @ [CHR 0x0A] @ ''LET x = 2'' @ [CHR 0x0A] @ ''INPUT x'')))))))
         (declLine ''x'') \<le> 1
   \<and> decl_inv (returned (parser_of
           (''LET x = 1'' @ [CHR 0x0A] @ ''LET x = 2'' @ [CHR 0x0A] @ ''INPUT x'')))
   \<and> statement 4 (returned (parser_of
           (''LET x = 1'' @ [CHR 0x0A] @ ''LET x = 2'' @ [CHR 0x0A] @ ''INPUT x'')))
       = Returns (returned (statement 4 (returned (parser_of
           (''LET x = 1'' @ [CHR 0x0A] @ ''LET x = 2'' @ [CHR 0x0A] @ ''INPUT x'')))))
   \<and> decl_inv (returned (statement 4 (returned (parser_of
           (''LET x = 1'' @ [CHR 0x0A] @ ''LET x = 2'' @ [CHR 0x0A] @ ''INPUT x'')))))"
proof -
  let ?src = "''LET x = 1'' @ [CHR 0x0A] @ ''LET x = 2'' @ [CHR 0x0A] @ ''INPUT x''"
  let ?start = "returned (parser_of ?src)"
  let ?final = "returned (program sorted_list_of_fset 4 ?start)"
  let ?after = "returned (statement 4 ?start)"
  note o = iteration_order_sorted
  have h0: "parser_of ?src = Returns ?start" by code_simp
  have h1: "program sorted_list_of_fset 4 ?start = Returns ?final" by code_simp
  have h2: "header (emitter ?final) = [''#include <stdio.h>'', ''int main(void){'', ''float x;'']"
    by code_simp
  have h3: "statement 4 ?start = Returns ?after" by code_simp
  have i0: "decl_inv ?start" using h0 by (rule parser_of_decl)
  from one_declaration_per_name[OF o, of ?src ?start 4 ?final "''x''" ?start ?after] h0 h1 h3 i0
  have c: "count_list (header (emitter ?final)) (declLine ''x'') \<le> 1" and i2: "decl_inv ?after"
    by blast+
  from o h0 h1 h2 c i0 h3 i2 show ?thesis by blast
qed

lemma let_x_compiled:
  "(case andThen (parser_of ''LET x = x + 1'') (program sorted_list_of_fset 2) of
      Returns q \<Rightarrow> outputText (emitter q) =
        ''#include <stdio.h>'' @ [CHR 0x0A] @ ''int main(void){'' @ [CHR 0x0A]
        @ ''float x;'' @ [CHR 0x0A] @ ''x = x+1;'' @ [CHR 0x0A]
        @ ''return 0;'' @ [CHR 0x0A] @ ''}'' @ [CHR 0x0A]
    | Exits e \<Rightarrow> False
    | NoReturn \<Rightarrow> False)"
  by code_simp

lemma let_x_main:
  assumes ord: "iteration_order ord" and n: "2 \<le> n"
    and src: "files w path = Some ''LET x = x + 1''"
  shows "fst (main ord n [prog, path] w) = Returns ()
     \<and> written (snd (main ord n [prog, path] w))
         = written w @ [(''out.c'',
             ''#include <stdio.h>'' @ [CHR 0x0A] @ ''int main(void){'' @ [CHR 0x0A]
             @ ''float x;'' @ [CHR 0x0A] @ ''x = x+1;'' @ [CHR 0x0A]
             @ ''return 0;'' @ [CHR 0x0A] @ ''}'' @ [CHR 0x0A])]"
proof -
  from let_x_compiled obtain q where
    q: "andThen (parser_of ''LET x = x + 1'') (program sorted_list_of_fset 2) = Returns q"
    and out: "outputText (emitter q) =
        ''#include <stdio.h>'' @ [CHR 0x0A] @ ''int main(void){'' @ [CHR 0x0A]
        @ ''float x;'' @ [CHR 0x0A] @ ''x = x+1;'' @ [CHR 0x0A]
        @ ''return 0;'' @ [CHR 0x0A] @ ''}'' @ [CHR 0x0A]"
    by (auto split: outcome.splits)
  from q obtain p0 where p0: "parser_of ''LET x = x + 1'' = Returns p0"
    and pq: "program sorted_list_of_fset 2 p0 = Returns q"
    by (auto simp: andThen_Returns_iff)
  from program_fuel_order[OF iteration_order_sorted ord n pq]
  have pq': "program ord n p0 = Returns q" .
  from program_path[OF ord pq'] parser_of_path[OF p0]
  have path: "fullPath (emitter q) = ''out.c''" by simp
  from p0 pq' src path out show ?thesis
    by (simp add: main_cases print_frame writeFile_frame)
qed

lemma seq_Cons_fun: "seq (f # fs) = (\<lambda>s. andThen (f s) (seq fs))"
  by (rule ext) simp

lemma seq_Nil_fun: "seq [] = Returns"
  by (rule ext) simp

lemma andThen_Returns_right: "andThen r Returns = r"
  by (cases r) simp_all

text \<open>
  C10. In a LET statement the name after \<^verbatim>\<open>LET\<close> is put into \<^verbatim>\<open>symbolsDeclared\<close> (and its
  declaration into the header, when the name is new) before the rest of the statement,
  with the expression, is parsed; and \<^verbatim>\<open>primary\<close> accepts an identifier that is in the set.
  So \<^verbatim>\<open>LET x = x + 1\<close>, with \<open>x\<close> not declared before, compiles: \<^verbatim>\<open>main\<close> returns and
  writes the program with the declaration of \<open>x\<close> and the assignment.
\<close>

theorem let_declares_before_expression:
  "(curTokeHasType LET p \<longrightarrow> skipCurToken None p = Returns p1 \<longrightarrow>
      (let name = text' (curToken p1);
           p2 = (if name |\<notin>| symbolsDeclared p1
                 then p1\<lparr>symbolsDeclared := finsert name (symbolsDeclared p1),
                         emitter := headerLine (''float '' @ name @ '';'') (emitter p1)\<rparr>
                 else p1)
       in name |\<in>| symbolsDeclared p2 \<and>
          statement (Suc n) p =
            seq [emitter_emit (\<lambda>p. text' (curToken p) @ '' = ''),
                 skipCurToken (Some IDENT),
                 skipCurToken (Some EQ),
                 expression n,
                 emitter_emitLine (\<lambda>p. '';''),
                 nl n] p2))
   \<and> (curTokeHasType IDENT p \<longrightarrow> text' (curToken p) |\<in>| symbolsDeclared p \<longrightarrow>
        primary p = seq [emitter_emit (\<lambda>p. text' (curToken p)), skipCurToken None] p)
   \<and> (iteration_order ord \<longrightarrow> 2 \<le> m \<longrightarrow> files w path = Some ''LET x = x + 1'' \<longrightarrow>
        fst (main ord m [prog, path] w) = Returns ()
        \<and> written (snd (main ord m [prog, path] w))
            = written w @ [(''out.c'',
                ''#include <stdio.h>'' @ [CHR 0x0A] @ ''int main(void){'' @ [CHR 0x0A]
                @ ''float x;'' @ [CHR 0x0A] @ ''x = x+1;'' @ [CHR 0x0A]
                @ ''return 0;'' @ [CHR 0x0A] @ ''}'' @ [CHR 0x0A])])"
proof -
  have a: "curTokeHasType LET p \<longrightarrow> skipCurToken None p = Returns p1 \<longrightarrow>
      (let name = text' (curToken p1);
           p2 = (if name |\<notin>| symbolsDeclared p1
                 then p1\<lparr>symbolsDeclared := finsert name (symbolsDeclared p1),
                         emitter := headerLine (''float '' @ name @ '';'') (emitter p1)\<rparr>
                 else p1)
       in name |\<in>| symbolsDeclared p2 \<and>
          statement (Suc n) p =
            seq [emitter_emit (\<lambda>p. text' (curToken p) @ '' = ''),
                 skipCurToken (Some IDENT),
                 skipCurToken (Some EQ),
                 expression n,
                 emitter_emitLine (\<lambda>p. '';''),
                 nl n] p2)"
  proof (intro impI)
    assume L: "curTokeHasType LET p" and s: "skipCurToken None p = Returns p1"
    from L have k: "kind (curToken p) = LET" by (simp add: curTokeHasType_def)
    show "let name = text' (curToken p1);
           p2 = (if name |\<notin>| symbolsDeclared p1
                 then p1\<lparr>symbolsDeclared := finsert name (symbolsDeclared p1),
                         emitter := headerLine (''float '' @ name @ '';'') (emitter p1)\<rparr>
                 else p1)
       in name |\<in>| symbolsDeclared p2 \<and>
          statement (Suc n) p =
            seq [emitter_emit (\<lambda>p. text' (curToken p) @ '' = ''),
                 skipCurToken (Some IDENT),
                 skipCurToken (Some EQ),
                 expression n,
                 emitter_emitLine (\<lambda>p. '';''),
                 nl n] p2"
      using s
      by (simp add: Let_def curTokeHasType_def k emitter_headerLine_def emitter_emit_def
            andThen_assoc seq_Cons_fun seq_Nil_fun andThen_Returns_right)
  qed
  have b: "curTokeHasType IDENT p \<longrightarrow> text' (curToken p) |\<in>| symbolsDeclared p \<longrightarrow>
        primary p = seq [emitter_emit (\<lambda>p. text' (curToken p)), skipCurToken None] p"
    by (simp add: primary_def curTokeHasType_def)
  from a b let_x_main[of ord m w path prog] show ?thesis by blast
qed

theorem let_declares_before_expression_witness:
  "curTokeHasType LET (returned (parser_of ''LET x = x + 1''))
   \<and> skipCurToken None (returned (parser_of ''LET x = x + 1''))
       = Returns (returned (skipCurToken None (returned (parser_of ''LET x = x + 1''))))
   \<and> text' (curToken (returned (skipCurToken None (returned (parser_of ''LET x = x + 1'')))))
       = ''x''
   \<and> statement 2 (returned (parser_of ''LET x = x + 1''))
       = seq [emitter_emit (\<lambda>p. text' (curToken p) @ '' = ''),
              skipCurToken (Some IDENT),
              skipCurToken (Some EQ),
              expression 1,
              emitter_emitLine (\<lambda>p. '';''),
              nl 1]
           ((returned (skipCurToken None (returned (parser_of ''LET x = x + 1''))))
              \<lparr>symbolsDeclared := {|''x''|},
               emitter := headerLine ''float x;'' (Emitter_init ''out.c'')\<rparr>)
   \<and> iteration_order sorted_list_of_fset \<and> (2::nat) \<le> 2
   \<and> files \<lparr>files = [''a.tt'' \<mapsto> ''LET x = x + 1''], written = [], stdout = []\<rparr> ''a.tt''
       = Some ''LET x = x + 1''
   \<and> main sorted_list_of_fset 2 [''teenytiny.py'', ''a.tt'']
         \<lparr>files = [''a.tt'' \<mapsto> ''LET x = x + 1''], written = [], stdout = []\<rparr>
       = (Returns (),
          \<lparr>files = [''a.tt'' \<mapsto> ''LET x = x + 1'',
                    ''out.c'' \<mapsto> ''#include <stdio.h>'' @ [CHR 0x0A] @ ''int main(void){''
                       @ [CHR 0x0A] @ ''float x;'' @ [CHR 0x0A] @ ''x = x+1;'' @ [CHR 0x0A]
                       @ ''return 0;'' @ [CHR 0x0A] @ ''}'' @ [CHR 0x0A]],
           written = [(''out.c'', ''#include <stdio.h>'' @ [CHR 0x0A] @ ''int main(void){''
                       @ [CHR 0x0A] @ ''float x;'' @ [CHR 0x0A] @ ''x = x+1;'' @ [CHR 0x0A]
                       @ ''return 0;'' @ [CHR 0x0A] @ ''}'' @ [CHR 0x0A])],
           stdout = [''Teeny Tiny Compiler'', ''Compiling completed.'']\<rparr>)"
proof -
  let ?start = "returned (parser_of ''LET x = x + 1'')"
  let ?next = "returned (skipCurToken None ?start)"
  let ?w = "\<lparr>files = [''a.tt'' \<mapsto> ''LET x = x + 1''], written = [], stdout = []\<rparr>"
  have h1: "curTokeHasType LET ?start" by code_simp
  have h2: "skipCurToken None ?start = Returns ?next" by code_simp
  have h3: "text' (curToken ?next) = ''x''" by code_simp
  have h4: "symbolsDeclared ?next = {||}" by code_simp
  have h5: "emitter ?next = Emitter_init ''out.c''" by code_simp
  have f: "files ?w ''a.tt'' = Some ''LET x = x + 1''" by simp
  note t = let_declares_before_expression[of ?start ?next 1 sorted_list_of_fset 2 ?w
      "''a.tt''" "''teenytiny.py''"]
  from t h1 h2 h3 h4 h5 have a: "statement 2 ?start
       = seq [emitter_emit (\<lambda>p. text' (curToken p) @ '' = ''),
              skipCurToken (Some IDENT),
              skipCurToken (Some EQ),
              expression 1,
              emitter_emitLine (\<lambda>p. '';''),
              nl 1]
           (?next\<lparr>symbolsDeclared := {|''x''|},
                   emitter := headerLine ''float x;'' (Emitter_init ''out.c'')\<rparr>)"
    by (simp add: Let_def numeral_2_eq_2)
  from t iteration_order_sorted f
  have r: "fst (main sorted_list_of_fset 2 [''teenytiny.py'', ''a.tt''] ?w) = Returns ()"
    and wr: "written (snd (main sorted_list_of_fset 2 [''teenytiny.py'', ''a.tt''] ?w))
            = [(''out.c'', ''#include <stdio.h>'' @ [CHR 0x0A] @ ''int main(void){''
                       @ [CHR 0x0A] @ ''float x;'' @ [CHR 0x0A] @ ''x = x+1;'' @ [CHR 0x0A]
                       @ ''return 0;'' @ [CHR 0x0A] @ ''}'' @ [CHR 0x0A])]"
    by simp_all
  have st: "stdout (snd (main sorted_list_of_fset 2 [''teenytiny.py'', ''a.tt''] ?w))
            = [''Teeny Tiny Compiler'', ''Compiling completed.'']"
    using r by (auto simp: main_cases print_def writeFile_def split: outcome.splits)
  have fl: "files (snd (main sorted_list_of_fset 2 [''teenytiny.py'', ''a.tt''] ?w))
            = [''a.tt'' \<mapsto> ''LET x = x + 1'',
                    ''out.c'' \<mapsto> ''#include <stdio.h>'' @ [CHR 0x0A] @ ''int main(void){''
                       @ [CHR 0x0A] @ ''float x;'' @ [CHR 0x0A] @ ''x = x+1;'' @ [CHR 0x0A]
                       @ ''return 0;'' @ [CHR 0x0A] @ ''}'' @ [CHR 0x0A]]"
    using r wr
    by (auto simp: main_cases print_def writeFile_def split: outcome.splits)
  have m: "main sorted_list_of_fset 2 [''teenytiny.py'', ''a.tt''] ?w
       = (Returns (),
          \<lparr>files = [''a.tt'' \<mapsto> ''LET x = x + 1'',
                    ''out.c'' \<mapsto> ''#include <stdio.h>'' @ [CHR 0x0A] @ ''int main(void){''
                       @ [CHR 0x0A] @ ''float x;'' @ [CHR 0x0A] @ ''x = x+1;'' @ [CHR 0x0A]
                       @ ''return 0;'' @ [CHR 0x0A] @ ''}'' @ [CHR 0x0A]],
           written = [(''out.c'', ''#include <stdio.h>'' @ [CHR 0x0A] @ ''int main(void){''
                       @ [CHR 0x0A] @ ''float x;'' @ [CHR 0x0A] @ ''x = x+1;'' @ [CHR 0x0A]
                       @ ''return 0;'' @ [CHR 0x0A] @ ''}'' @ [CHR 0x0A])],
           stdout = [''Teeny Tiny Compiler'', ''Compiling completed.'']\<rparr>)"
    using r wr st fl by (simp add: prod_eq_iff)
  from h1 h2 h3 a iteration_order_sorted f m show ?thesis by simp
qed

end
